theory Spec2Isabelle
  imports Complex_Main
begin

section \<open>Python values used by the controller\<close>

text \<open>
  The exceptions that the modelled code can raise or has to handle. \<open>OSError\<close> is what
  the device raises when the connection is lost; \<open>ValueError\<close> is raised by
  \<open>find_input_device\<close>; the others come from Python's arithmetic, attribute lookup and
  iterators.
\<close>

datatype error =
  OSError | ValueError | ZeroDivisionError | OverflowError | TypeError
  | AttributeError | StopIteration

subsection \<open>Floats\<close>

text \<open>
  A Python float is an IEEE 754 binary64 number. A finite one is \<open>Finite m e\<close>, the
  number \<open>m * 2 ^ e\<close>, in the format's own normal form: \<open>\<bar>m\<bar> < 2 ^ 53\<close>,
  \<open>- 1074 \<le> e \<le> 971\<close>, and \<open>2 ^ 52 \<le> \<bar>m\<bar>\<close> unless \<open>e = - 1074\<close>. The two zeros
  of the format are not told apart (Python's \<open>==\<close> does not tell them apart either, and
  the controller never divides by a computed float).
\<close>

datatype pyfloat = Finite int int | PosInf | NegInf | NaN

fun bit_length :: "int \<Rightarrow> int" where
  "bit_length n = (if n \<le> 0 then 0 else 1 + bit_length (n div 2))"

declare bit_length.simps [simp del]

definition scale2 :: "int \<Rightarrow> int \<Rightarrow> int" where
  "scale2 n k = (if 0 \<le> k then n * 2 ^ nat k else n)"

text \<open>
  \<open>floor_log2 a d k\<close> is the binary exponent of \<open>a / d\<close>, given the difference \<open>k\<close> of
  the bit lengths of \<open>a\<close> and \<open>d\<close>, which is that exponent or one more.
\<close>

definition floor_log2 :: "int \<Rightarrow> int \<Rightarrow> int \<Rightarrow> int" where
  "floor_log2 a d k = (if scale2 d k \<le> scale2 a (- k) then k else k - 1)"

definition nearest_even :: "int \<Rightarrow> int \<Rightarrow> int \<Rightarrow> int" where
  "nearest_even q r den =
     (if 2 * r < den then q else if den < 2 * r then q + 1
      else if even q then q else q + 1)"

definition quantize :: "int \<Rightarrow> int \<Rightarrow> int" where
  "quantize num den = nearest_even (num div den) (num mod den) den"

definition pack :: "int \<Rightarrow> int \<Rightarrow> int \<Rightarrow> pyfloat" where
  "pack sg m e =
     (if m = 2 ^ 53
      then (if 971 < e + 1 then (if 0 < sg then PosInf else NegInf)
            else Finite (sg * 2 ^ 52) (e + 1))
      else if 971 < e then (if 0 < sg then PosInf else NegInf)
      else Finite (sg * m) e)"

definition round_at :: "int \<Rightarrow> int \<Rightarrow> int \<Rightarrow> pyfloat" where
  "round_at n d e = pack (sgn n) (quantize (scale2 \<bar>n\<bar> (- e)) (scale2 d e)) e"

text \<open>
  \<open>round_ratio n d\<close>, for \<open>0 < d\<close>, is the float nearest to \<open>n / d\<close>, ties to the even
  mantissa, and an infinity beyond the largest float: the rounding of every float
  operation and of a float literal.
\<close>

definition round_ratio :: "int \<Rightarrow> int \<Rightarrow> pyfloat" where
  "round_ratio n d =
     (if n = 0 then Finite 0 (- 1074)
      else round_at n d
             (max (floor_log2 \<bar>n\<bar> d (bit_length \<bar>n\<bar> - bit_length d) - 52) (- 1074)))"

text \<open>\<open>round_scaled n e\<close> rounds \<open>n * 2 ^ e\<close>.\<close>

definition round_scaled :: "int \<Rightarrow> int \<Rightarrow> pyfloat" where
  "round_scaled n e = round_ratio (scale2 n e) (scale2 1 (- e))"

text \<open>The value of a finite float as a rational number.\<close>

fun fval :: "pyfloat \<Rightarrow> rat option" where
  "fval (Finite m e) =
     Some (if 0 \<le> e then of_int m * 2 ^ nat e else of_int m / 2 ^ nat (- e))"
| "fval PosInf = None"
| "fval NegInf = None"
| "fval NaN = None"

text \<open>\<open>float(i)\<close> of an \<open>int\<close>: correctly rounded, \<open>OverflowError\<close> beyond the range.\<close>

definition float_of_int :: "int \<Rightarrow> error + pyfloat" where
  "float_of_int i =
     (case round_ratio i 1 of
        Finite m e \<Rightarrow> Inr (Finite m e)
      | _ \<Rightarrow> Inl OverflowError)"

fun fneg :: "pyfloat \<Rightarrow> pyfloat" where
  "fneg (Finite m e) = Finite (- m) e"
| "fneg PosInf = NegInf"
| "fneg NegInf = PosInf"
| "fneg NaN = NaN"

fun fadd :: "pyfloat \<Rightarrow> pyfloat \<Rightarrow> pyfloat" where
  "fadd (Finite m1 e1) (Finite m2 e2) =
     round_scaled (scale2 m1 (e1 - min e1 e2) + scale2 m2 (e2 - min e1 e2)) (min e1 e2)"
| "fadd NaN y = NaN"
| "fadd x NaN = NaN"
| "fadd PosInf NegInf = NaN"
| "fadd NegInf PosInf = NaN"
| "fadd PosInf y = PosInf"
| "fadd NegInf y = NegInf"
| "fadd x PosInf = PosInf"
| "fadd x NegInf = NegInf"

definition fsub :: "pyfloat \<Rightarrow> pyfloat \<Rightarrow> pyfloat" where
  "fsub x y = fadd x (fneg y)"

fun fsign :: "pyfloat \<Rightarrow> int" where
  "fsign (Finite m e) = sgn m"
| "fsign PosInf = 1"
| "fsign NegInf = - 1"
| "fsign NaN = 0"

fun fmul :: "pyfloat \<Rightarrow> pyfloat \<Rightarrow> pyfloat" where
  "fmul (Finite m1 e1) (Finite m2 e2) = round_scaled (m1 * m2) (e1 + e2)"
| "fmul NaN y = NaN"
| "fmul x NaN = NaN"
| "fmul x y =
     (if fsign x * fsign y = 0 then NaN
      else if 0 < fsign x * fsign y then PosInf else NegInf)"

text \<open>
  Float division raises \<open>ZeroDivisionError\<close> when the divisor is zero, whatever the
  dividend is, and is the IEEE quotient otherwise.
\<close>

fun fdiv :: "pyfloat \<Rightarrow> pyfloat \<Rightarrow> error + pyfloat" where
  "fdiv x (Finite m2 e2) =
     (if m2 = 0 then Inl ZeroDivisionError
      else Inr (case x of
                  Finite m1 e1 \<Rightarrow>
                    round_ratio (scale2 (m1 * sgn m2) (e1 - e2)) (scale2 \<bar>m2\<bar> (e2 - e1))
                | PosInf \<Rightarrow> (if 0 < m2 then PosInf else NegInf)
                | NegInf \<Rightarrow> (if 0 < m2 then NegInf else PosInf)
                | NaN \<Rightarrow> NaN))"
| "fdiv x NaN = Inr NaN"
| "fdiv (Finite m1 e1) y = Inr (Finite 0 (- 1074))"
| "fdiv x y = Inr NaN"

subsection \<open>Dynamically typed values\<close>

text \<open>
  The value of a translated event is an \<open>int\<close> (a button), a float (a scaled axis) or
  \<open>None\<close> (after a reconnection).
\<close>

datatype pyval = VNone | VInt int | VFloat pyfloat

text \<open>\<open>val == 1\<close>: an \<open>int\<close> or a float equal to one; \<open>None == 1\<close> is false.\<close>

fun eq_one :: "pyval \<Rightarrow> bool" where
  "eq_one VNone = False"
| "eq_one (VInt i) = (i = 1)"
| "eq_one (VFloat x) = (fval x = Some 1)"

text \<open>
  The left operand of \<open>val * self.throttle_scale\<close>, where the right one is a float:
  an \<open>int\<close> is converted, \<open>None\<close> has no product.
\<close>

fun as_float :: "pyval \<Rightarrow> error + pyfloat" where
  "as_float VNone = Inl TypeError"
| "as_float (VInt i) = float_of_int i"
| "as_float (VFloat x) = Inr x"

subsection \<open>Strings\<close>

text \<open>
  Strings are lists of 8-bit characters; \<open>lower\<close> is \<open>str.lower\<close> on ASCII and
  \<open>contains\<close> is the substring test \<open>a in b\<close>.
\<close>

definition char_lower :: "char \<Rightarrow> char" where
  "char_lower c =
     (if 65 \<le> (of_char c :: nat) \<and> (of_char c :: nat) \<le> 90
      then char_of ((of_char c :: nat) + 32) else c)"

definition lower :: "string \<Rightarrow> string" where
  "lower s = map char_lower s"

fun starts_with :: "string \<Rightarrow> string \<Rightarrow> bool" where
  "starts_with [] b = True"
| "starts_with (x # a) [] = False"
| "starts_with (x # a) (y # b) = (x = y \<and> starts_with a b)"

fun contains :: "string \<Rightarrow> string \<Rightarrow> bool" where
  "contains a [] = (a = [])"
| "contains a (y # b) = (starts_with a (y # b) \<or> contains a b)"

subsection \<open>\<open>itertools.cycle\<close>\<close>

text \<open>
  The iterator \<open>cycle(xs)\<close> over a list: the saved items and the position of the item
  that \<open>next\<close> returns. Over an empty list \<open>next\<close> raises \<open>StopIteration\<close>.
\<close>

datatype 'a cycle = Cycle "'a list" nat

fun next_cycle :: "'a cycle \<Rightarrow> error + ('a \<times> 'a cycle)" where
  "next_cycle (Cycle xs i) =
     (if xs = [] then Inl StopIteration
      else Inr (xs ! i, Cycle xs (Suc i mod length xs)))"

section \<open>Devices\<close>

text \<open>
  An input device as the controller sees it: its path and its human-readable name. What
  the host enumerates (\<open>evdev.list_devices\<close>) is an input of the model: a list of
  devices for one enumeration, and a sequence \<open>scans\<close> of such lists for the successive
  enumerations of a retry loop.
\<close>

record dev =
  path :: string
  name :: string

text \<open>
  The search term is a string, or the integer that \<open>__init__\<close> falls back to when no
  term is configured; an integer has no \<open>lower\<close> method.
\<close>

datatype search_term = Str string | Num int

text \<open>The loop of \<open>find_input_device\<close> that collects the matching devices.\<close>

fun likely_devices :: "search_term \<Rightarrow> dev list \<Rightarrow> dev list \<Rightarrow> error + dev list" where
  "likely_devices t [] acc = Inr acc"
| "likely_devices (Num n) (d # ds) acc = Inl AttributeError"
| "likely_devices (Str t) (d # ds) acc =
     likely_devices (Str t) ds
       (if contains (lower t) (lower (name d)) then acc @ [d] else acc)"

text \<open>
  \<open>find_input_device\<close> returns the device (\<open>Some\<close>) when exactly one matches, raises
  \<open>ValueError\<close> when two or more do, and returns \<open>None\<close> otherwise.
\<close>

definition find_input_device :: "dev list \<Rightarrow> search_term \<Rightarrow> error + dev option" where
  "find_input_device all_devices t =
     (case likely_devices t all_devices [] of
        Inl e \<Rightarrow> Inl e
      | Inr likely \<Rightarrow>
          if length likely = 1 then Inr (Some (likely ! 0))
          else if 2 \<le> length likely then Inl ValueError
          else Inr None)"

text \<open>
  \<open>load_device\<close> enumerates again and again until a device is found. The loop has no
  bound: the result \<open>None\<close> of the model is the loop that never ends.
\<close>

partial_function (option) load_device :: "(nat \<Rightarrow> dev list) \<Rightarrow> search_term \<Rightarrow> (error + dev) option"
  where
  "load_device scans t =
     (case find_input_device (scans 0) t of
        Inl e \<Rightarrow> Some (Inl e)
      | Inr (Some d) \<Rightarrow> Some (Inr d)
      | Inr None \<Rightarrow> load_device (\<lambda>k. scans (Suc k)) t)"

section \<open>The controller\<close>

text \<open>
  The fields of a \<open>BluetoothGameController\<close>; \<open>state\<close> is the dictionary
  \<open>self.state\<close>, whose keys are button names or \<open>None\<close>. What the methods print
  and how long they sleep is not part of the model.
\<close>

record controller =
  verbose :: bool
  running :: bool
  state :: "string option \<rightharpoonup> pyval"
  angle :: pyval
  throttle :: pyfloat
  throttle_scale :: pyfloat
  throttle_scale_increment :: pyfloat
  y_axis_direction :: int
  drive_mode_toggle :: "string cycle"
  drive_mode :: string
  recording_toggle :: "bool cycle"
  recording :: bool
  btn_map :: "int \<rightharpoonup> string"
  joystick_max_value :: int
  device_search_term :: search_term
  device :: dev

text \<open>The loaded configuration: the button map, and the two optional entries.\<close>

record config =
  cfg_button_map :: "int \<rightharpoonup> string"
  cfg_joystick_max_value :: "int option"
  cfg_device_search_term :: "string option"

text \<open>
  \<open>__init__\<close>, given the configuration that \<open>_load_config\<close> returned. The search term is
  the argument unless it is \<open>None\<close> or empty, then the configured one, then \<open>1280\<close>.
\<close>

definition init ::
  "dev option \<Rightarrow> config \<Rightarrow> string option \<Rightarrow> bool \<Rightarrow> (nat \<Rightarrow> dev list)
     \<Rightarrow> (error + controller) option" where
  "init event_input_device cfg search_arg verbose_arg scans =
     (case next_cycle (Cycle [''user'', ''local_angle'', ''local''] 0) of
        Inl e \<Rightarrow> Some (Inl e)
      | Inr (dm, dmt) \<Rightarrow>
     (case next_cycle (Cycle [True, False] 0) of
        Inl e \<Rightarrow> Some (Inl e)
      | Inr (r, rt) \<Rightarrow>
     (let configured = (case cfg_device_search_term cfg of
                          Some c \<Rightarrow> Str c | None \<Rightarrow> Num 1280);
          t = (case search_arg of
                 None \<Rightarrow> configured
               | Some a \<Rightarrow> if a = [] then configured else Str a)
      in case (case event_input_device of
                 None \<Rightarrow> load_device scans t
               | Some d \<Rightarrow> Some (Inr d)) of
           None \<Rightarrow> None
         | Some (Inl e) \<Rightarrow> Some (Inl e)
         | Some (Inr d) \<Rightarrow>
             Some (Inr \<lparr> verbose = verbose_arg,
                         running = False,
                         state = Map.empty,
                         angle = VFloat (round_ratio 0 1),
                         throttle = round_ratio 0 1,
                         throttle_scale = round_ratio 1 1,
                         throttle_scale_increment = round_ratio 5 100,
                         y_axis_direction = - 1,
                         drive_mode_toggle = dmt,
                         drive_mode = dm,
                         recording_toggle = rt,
                         recording = r,
                         btn_map = cfg_button_map cfg,
                         joystick_max_value =
                           (case cfg_joystick_max_value cfg of
                              None \<Rightarrow> 1280 | Some m \<Rightarrow> m),
                         device_search_term = t,
                         device = d \<rparr>))))"

subsection \<open>Reading and translating an event\<close>

record input_event =
  ev_type :: int
  ev_code :: int
  ev_value :: int

text \<open>
  Modelled from the spec: the event type of an axis event, \<open>ecodes.EV_ABS\<close> of the
  \<open>evdev\<close> library, which is not part of the repository; it is the constant 3 of the
  Linux input interface.
\<close>

definition EV_ABS :: int where
  "EV_ABS = 3"

text \<open>
  \<open>val / float(self.joystick_max_value)\<close>: the conversion of the divisor first, then the
  conversion of the dividend, then the division.
\<close>

definition scale_axis :: "int \<Rightarrow> int \<Rightarrow> error + pyfloat" where
  "scale_axis v m =
     (case float_of_int m of
        Inl e \<Rightarrow> Inl e
      | Inr y \<Rightarrow>
          (case float_of_int v of
             Inl e \<Rightarrow> Inl e
           | Inr x \<Rightarrow> fdiv x y))"

text \<open>
  \<open>read_loop\<close>. Its second argument is what \<open>next(self.device.read_loop())\<close> does: it
  returns an event or raises. Only \<open>OSError\<close> is handled: the device is loaded again and
  \<open>(None, None)\<close> is returned.
\<close>

definition read_loop ::
  "controller \<Rightarrow> error + input_event \<Rightarrow> (nat \<Rightarrow> dev list)
     \<Rightarrow> (error + (string option \<times> pyval) \<times> controller) option" where
  "read_loop s rd scans =
     (case rd of
        Inr event \<Rightarrow>
          (if ev_type event = EV_ABS
           then (case scale_axis (ev_value event) (joystick_max_value s) of
                   Inl e \<Rightarrow> Some (Inl e)
                 | Inr x \<Rightarrow> Some (Inr ((btn_map s (ev_code event), VFloat x), s)))
           else Some (Inr ((btn_map s (ev_code event), VInt (ev_value event)), s)))
      | Inl e \<Rightarrow>
          (if e = OSError
           then (case load_device scans (device_search_term s) of
                   None \<Rightarrow> None
                 | Some (Inl e') \<Rightarrow> Some (Inl e')
                 | Some (Inr d) \<Rightarrow> Some (Inr ((None, VNone), s\<lparr>device := d\<rparr>)))
           else Some (Inl e)))"

subsection \<open>The handlers\<close>

definition update_angle :: "pyval \<Rightarrow> controller \<Rightarrow> error + controller" where
  "update_angle val s = Inr (s\<lparr>angle := val\<rparr>)"

definition update_throttle :: "pyval \<Rightarrow> controller \<Rightarrow> error + controller" where
  "update_throttle val s =
     (case as_float val of
        Inl e \<Rightarrow> Inl e
      | Inr x \<Rightarrow>
          (case float_of_int (y_axis_direction s) of
             Inl e \<Rightarrow> Inl e
           | Inr d \<Rightarrow> Inr (s\<lparr>throttle := fmul (fmul x (throttle_scale s)) d\<rparr>)))"

definition toggle_recording :: "pyval \<Rightarrow> controller \<Rightarrow> error + controller" where
  "toggle_recording val s =
     (if eq_one val
      then (case next_cycle (recording_toggle s) of
              Inl e \<Rightarrow> Inl e
            | Inr (r, c) \<Rightarrow> Inr (s\<lparr>recording_toggle := c, recording := r\<rparr>))
      else Inr s)"

definition toggle_drive_mode :: "pyval \<Rightarrow> controller \<Rightarrow> error + controller" where
  "toggle_drive_mode val s =
     (if eq_one val
      then (case next_cycle (drive_mode_toggle s) of
              Inl e \<Rightarrow> Inl e
            | Inr (m, c) \<Rightarrow> Inr (s\<lparr>drive_mode_toggle := c, drive_mode := m\<rparr>))
      else Inr s)"

definition increment_throttle_scale :: "pyval \<Rightarrow> controller \<Rightarrow> error + controller" where
  "increment_throttle_scale val s =
     (if eq_one val
      then Inr (s\<lparr>throttle_scale := fadd (throttle_scale s) (throttle_scale_increment s)\<rparr>)
      else Inr s)"

definition decrement_throttle_scale :: "pyval \<Rightarrow> controller \<Rightarrow> error + controller" where
  "decrement_throttle_scale val s =
     (if eq_one val
      then Inr (s\<lparr>throttle_scale := fsub (throttle_scale s) (throttle_scale_increment s)\<rparr>)
      else Inr s)"

text \<open>\<open>self.func_map\<close>, and \<open>self.func_map.get(btn)\<close> for a button that may be \<open>None\<close>.\<close>

definition func_map :: "string \<rightharpoonup> (pyval \<Rightarrow> controller \<Rightarrow> error + controller)" where
  "func_map =
     [''LEFT_STICK_X'' \<mapsto> update_angle,
      ''LEFT_STICK_Y'' \<mapsto> update_throttle,
      ''B'' \<mapsto> toggle_recording,
      ''A'' \<mapsto> toggle_drive_mode,
      ''PAD_UP'' \<mapsto> increment_throttle_scale,
      ''PAD_DOWN'' \<mapsto> decrement_throttle_scale]"

definition func_map_get ::
  "string option \<Rightarrow> (pyval \<Rightarrow> controller \<Rightarrow> error + controller) option" where
  "func_map_get btn = (case btn of None \<Rightarrow> None | Some b \<Rightarrow> func_map b)"

subsection \<open>Updating the state\<close>

text \<open>
  The body of \<open>update_state_from_loop\<close> after the read: the value is stored under the
  button, then the button's handler, if it has one, is run.
\<close>

definition apply_event :: "string option \<Rightarrow> pyval \<Rightarrow> controller \<Rightarrow> error + controller" where
  "apply_event btn val s =
     (case func_map_get btn of
        None \<Rightarrow> Inr (s\<lparr>state := (state s)(btn \<mapsto> val)\<rparr>)
      | Some func \<Rightarrow> func val (s\<lparr>state := (state s)(btn \<mapsto> val)\<rparr>))"

definition update_state_from_loop ::
  "controller \<Rightarrow> error + input_event \<Rightarrow> (nat \<Rightarrow> dev list) \<Rightarrow> (error + controller) option" where
  "update_state_from_loop s rd scans =
     (case read_loop s rd scans of
        None \<Rightarrow> None
      | Some (Inl e) \<Rightarrow> Some (Inl e)
      | Some (Inr ((btn, val), s')) \<Rightarrow> Some (apply_event btn val s'))"

text \<open>\<open>run\<close> updates once and returns the four outputs.\<close>

definition run ::
  "controller \<Rightarrow> error + input_event \<Rightarrow> (nat \<Rightarrow> dev list)
     \<Rightarrow> (error + (pyval \<times> pyfloat \<times> string \<times> bool) \<times> controller) option" where
  "run s rd scans =
     (case update_state_from_loop s rd scans of
        None \<Rightarrow> None
      | Some (Inl e) \<Rightarrow> Some (Inl e)
      | Some (Inr s') \<Rightarrow> Some (Inr ((angle s', throttle s', drive_mode s', recording s'), s')))"

text \<open>A sequence of translated events, applied in order until one raises.\<close>

fun apply_events :: "(string option \<times> pyval) list \<Rightarrow> controller \<Rightarrow> error + controller" where
  "apply_events [] s = Inr s"
| "apply_events ((btn, val) # evs) s =
     (case apply_event btn val s of
        Inl e \<Rightarrow> Inl e
      | Inr s' \<Rightarrow> apply_events evs s')"

section \<open>Notions of the specification\<close>

text \<open>
  A device matches a search term when its name contains the term, case-insensitively:
  the lowered name is the lowered term with something before and something after it.
\<close>

definition matches_term :: "string \<Rightarrow> dev \<Rightarrow> bool" where
  "matches_term t d \<longleftrightarrow> (\<exists>before after. lower (name d) = before @ lower t @ after)"

text \<open>
  The normal form of a finite float: the mantissa has at most 53 bits, the exponent is in
  the range of the format, and the mantissa has its leading bit unless the exponent is the
  least one.
\<close>

definition normal_form :: "int \<Rightarrow> int \<Rightarrow> bool" where
  "normal_form m e \<longleftrightarrow>
     - 1074 \<le> e \<and> e \<le> 971 \<and> \<bar>m\<bar> < 2 ^ 53 \<and> (e = - 1074 \<or> 2 ^ 52 \<le> \<bar>m\<bar>)"

text \<open>The drive modes in the order of the cycle.\<close>

definition drive_modes :: "string list" where
  "drive_modes = [''user'', ''local_angle'', ''local'']"

text \<open>
  The states that a session goes through: the one built by \<open>__init__\<close>, and every state
  that an update, or a translated event applied to it, leads to.
\<close>

inductive reachable :: "controller \<Rightarrow> bool" where
  reachable_init:
    "init event_input_device cfg search_arg verbose_arg scans = Some (Inr s) \<Longrightarrow> reachable s"
| reachable_update:
    "reachable s \<Longrightarrow> update_state_from_loop s rd scans = Some (Inr s') \<Longrightarrow> reachable s'"
| reachable_event:
    "reachable s \<Longrightarrow> apply_event btn val s = Inr s' \<Longrightarrow> reachable s'"

text \<open>
  What holds in every such state: the drive mode and the recording flag are the items
  that their iterators returned last, and the two constants are as \<open>__init__\<close> set them.
\<close>

definition drive_mode_at :: "nat \<Rightarrow> controller \<Rightarrow> bool" where
  "drive_mode_at i s \<longleftrightarrow>
     i < 3 \<and> drive_mode_toggle s = Cycle drive_modes (Suc i mod 3) \<and>
     drive_mode s = drive_modes ! i"

definition recording_at :: "nat \<Rightarrow> controller \<Rightarrow> bool" where
  "recording_at j s \<longleftrightarrow>
     j < 2 \<and> recording_toggle s = Cycle [True, False] (Suc j mod 2) \<and>
     recording s = [True, False] ! j"

definition consistent :: "controller \<Rightarrow> bool" where
  "consistent s \<longleftrightarrow>
     y_axis_direction s = - 1 \<and>
     throttle_scale_increment s = Finite 7205759403792794 (- 57) \<and>
     (\<exists>i. drive_mode_at i s) \<and> (\<exists>j. recording_at j s)"

section \<open>A concrete session\<close>

text \<open>
  A configuration, a device and the controller that \<open>__init__\<close> builds from them; the
  examples below are evaluated on these.
\<close>

definition example_config :: config where
  "example_config =
     \<lparr> cfg_button_map =
         [0 \<mapsto> ''LEFT_STICK_X'', 1 \<mapsto> ''LEFT_STICK_Y'', 304 \<mapsto> ''A'', 305 \<mapsto> ''B'',
          544 \<mapsto> ''PAD_UP'', 545 \<mapsto> ''PAD_DOWN''],
       cfg_joystick_max_value = Some 1280,
       cfg_device_search_term = Some ''Nintendo'' \<rparr>"

definition example_device :: dev where
  "example_device = \<lparr> path = ''/dev/input/event3'', name = ''Nintendo Wii Remote Pro Controller'' \<rparr>"

definition example_controller :: controller where
  "example_controller =
     \<lparr> verbose = False,
       running = False,
       state = Map.empty,
       angle = VFloat (Finite 0 (- 1074)),
       throttle = Finite 0 (- 1074),
       throttle_scale = Finite (2 ^ 52) (- 52),
       throttle_scale_increment = Finite 7205759403792794 (- 57),
       y_axis_direction = - 1,
       drive_mode_toggle = Cycle [''user'', ''local_angle'', ''local''] 1,
       drive_mode = ''user'',
       recording_toggle = Cycle [True, False] 1,
       recording = True,
       btn_map = cfg_button_map example_config,
       joystick_max_value = 1280,
       device_search_term = Str ''Nintendo'',
       device = example_device \<rparr>"

section \<open>Evaluating floats\<close>

lemma bit_length_0: "bit_length 0 = 0"
  by (simp add: bit_length.simps)

lemma bit_length_1: "bit_length 1 = 1"
  by (simp add: bit_length.simps [of 1] bit_length_0)

lemma bit_length_numeral: "bit_length (numeral k) = 1 + bit_length (numeral k div 2)"
  by (subst bit_length.simps) simp

lemmas float_eval =
  round_scaled_def round_ratio_def round_at_def pack_def quantize_def nearest_even_def
  floor_log2_def scale2_def bit_length_0 bit_length_1 bit_length_numeral

lemma float_zero: "round_ratio 0 d = Finite 0 (- 1074)"
  by (simp add: round_ratio_def)

lemma float_one: "round_ratio 1 1 = Finite (2 ^ 52) (- 52)"
  by (simp add: float_eval)

lemma float_increment: "round_ratio 5 100 = Finite 7205759403792794 (- 57)"
  by (simp add: float_eval)

lemma float_of_int_minus_one: "float_of_int (- 1) = Inr (Finite (- (2 ^ 52)) (- 52))"
  by (simp add: float_of_int_def float_eval)

text \<open>
  The model on values that are known from CPython: \<open>1 / 3\<close>; \<open>0.1 + 0.2\<close> and
  \<open>0.1 * 3\<close>, which are both \<open>0.30000000000000004\<close> and not the float \<open>0.3\<close>;
  \<open>-7 / 1280.0\<close>; the conversions of \<open>2 ** 53 + 1\<close> and \<open>2 ** 53 + 3\<close>, two ties
  that go to the even mantissa; the overflow of \<open>float(2 ** 1024)\<close>, the largest float,
  and the subnormal \<open>1e-320\<close>.
\<close>

lemma float_third: "round_ratio 1 3 = Finite 6004799503160661 (- 54)"
  by (simp add: float_eval)

lemma float_sum_example:
  "fadd (round_ratio 1 10) (round_ratio 2 10) = Finite 5404319552844596 (- 54)"
  "round_ratio 3 10 = Finite 5404319552844595 (- 54)"
  by (simp_all add: float_eval)

lemma float_product_example:
  "fmul (round_ratio 1 10) (round_ratio 3 1) = Finite 5404319552844596 (- 54)"
  by (simp add: float_eval)

lemma float_quotient_example:
  "fdiv (round_ratio (- 7) 1) (round_ratio 1280 1) = Inr (Finite (- 6305039478318694) (- 60))"
  by (simp add: float_eval)

lemma float_ties_to_even:
  "float_of_int (2 ^ 53 + 1) = Inr (Finite (2 ^ 52) 1)"
  "float_of_int (2 ^ 53 + 3) = Inr (Finite (2 ^ 52 + 2) 1)"
  by (simp_all add: float_of_int_def float_eval)

lemma float_overflow: "float_of_int (2 ^ 1024) = Inl OverflowError"
  by (simp add: float_of_int_def float_eval)

lemma float_largest: "float_of_int (2 ^ 1024 - 2 ^ 970 - 1) = Inr (Finite (2 ^ 53 - 1) 971)"
  by (simp add: float_of_int_def float_eval)

lemma float_subnormal: "round_ratio 1 (10 ^ 320) = Finite 2024 (- 1074)"
  by (simp add: float_eval)

section \<open>Integers as floats\<close>

text \<open>
  An \<open>int\<close> below \<open>2 ^ 53\<close> in absolute value is converted to a float without rounding.
\<close>

lemma bit_length_pos: "0 < a \<Longrightarrow> 1 \<le> bit_length a"
proof (induction a rule: bit_length.induct)
  case (1 n)
  show ?case
  proof (cases "n div 2 \<le> 0")
    case True
    with "1.prems" show ?thesis
      by (simp add: bit_length.simps [of n] bit_length.simps [of "n div 2"] bit_length_0)
  next
    case False
    with 1 have "1 \<le> bit_length (n div 2)" by simp
    with "1.prems" show ?thesis by (simp add: bit_length.simps [of n])
  qed
qed

lemma bit_length_bounds:
  "0 < a \<Longrightarrow> 2 ^ nat (bit_length a - 1) \<le> a \<and> a < 2 ^ nat (bit_length a)"
proof (induction a rule: bit_length.induct)
  case (1 n)
  show ?case
  proof (cases "n div 2 \<le> 0")
    case True
    with "1.prems" have "n = 1" by auto
    then show ?thesis by (simp add: bit_length_1)
  next
    case False
    then have h: "0 < n div 2" by simp
    with 1 have ih: "2 ^ nat (bit_length (n div 2) - 1) \<le> n div 2"
      "n div 2 < 2 ^ nat (bit_length (n div 2))" by simp_all
    from bit_length_pos [OF h] have p: "1 \<le> bit_length (n div 2)" .
    have bl: "bit_length n = 1 + bit_length (n div 2)"
      using "1.prems" by (simp add: bit_length.simps [of n])
    have e1: "nat (bit_length n - 1) = Suc (nat (bit_length (n div 2) - 1))"
      using p bl by simp
    have e2: "nat (bit_length n) = Suc (nat (bit_length (n div 2)))"
      using p bl by simp
    have "2 * 2 ^ nat (bit_length (n div 2) - 1) \<le> n"
      using ih(1) by linarith
    moreover have "n < 2 * 2 ^ nat (bit_length (n div 2))"
      using ih(2) by linarith
    ultimately show ?thesis by (simp add: e1 e2)
  qed
qed


lemma round_ratio_small_int:
  assumes "n \<noteq> 0" and "\<bar>n\<bar> < 2 ^ 53"
  shows "round_ratio n 1 =
           Finite (n * 2 ^ nat (53 - bit_length \<bar>n\<bar>)) (bit_length \<bar>n\<bar> - 53)"
proof -
  let ?a = "\<bar>n\<bar>"
  let ?b = "bit_length ?a"
  from assms(1) have a: "0 < ?a" by simp
  from bit_length_bounds [OF a] have lo: "2 ^ nat (?b - 1) \<le> ?a" and hi: "?a < 2 ^ nat ?b"
    by simp_all
  from bit_length_pos [OF a] have pos: "1 \<le> ?b" .
  from lo assms(2) have "(2::int) ^ nat (?b - 1) < 2 ^ 53" by linarith
  then have "nat (?b - 1) < 53" by (rule power_less_imp_less_exp [rotated]) simp
  with pos have b53: "?b \<le> 53" by linarith
  have fl: "floor_log2 ?a 1 (?b - 1) = ?b - 1"
    using lo pos by (cases "?b = 1") (simp_all add: floor_log2_def scale2_def)
  have e: "max (?b - 53) (- 1074) = ?b - 53"
    using pos by simp
  have num: "scale2 ?a (53 - ?b) = ?a * 2 ^ nat (53 - ?b)"
    using b53 by (simp add: scale2_def)
  have den: "scale2 1 (?b - 53) = 1"
    using b53 by (simp add: scale2_def)
  have q: "quantize (?a * 2 ^ nat (53 - ?b)) 1 = ?a * 2 ^ nat (53 - ?b)"
    by (simp add: quantize_def nearest_even_def)
  have "?a * 2 ^ nat (53 - ?b) < 2 ^ nat ?b * 2 ^ nat (53 - ?b)"
    using hi by simp
  also have "\<dots> = 2 ^ (nat ?b + nat (53 - ?b))"
    by (simp add: power_add)
  also have "nat ?b + nat (53 - ?b) = 53"
    using pos b53 by simp
  finally have m: "?a * 2 ^ nat (53 - ?b) < 2 ^ 53" .
  have sg: "sgn n * (?a * 2 ^ nat (53 - ?b)) = n * 2 ^ nat (53 - ?b)"
    by (simp add: mult.assoc [symmetric] mult_sgn_abs)
  have "round_ratio n 1 = pack (sgn n) (?a * 2 ^ nat (53 - ?b)) (?b - 53)"
    using assms(1) by (simp add: round_ratio_def round_at_def bit_length_1 fl e num den q)
  also have "\<dots> = Finite (sgn n * (?a * 2 ^ nat (53 - ?b))) (?b - 53)"
    using m b53 by (simp add: pack_def)
  finally show ?thesis by (simp only: sg)
qed

lemma float_of_int_exact:
  assumes "\<bar>i\<bar> < 2 ^ 53"
  shows "\<exists>x. float_of_int i = Inr x \<and> fval x = Some (of_int i)"
proof (cases "i = 0")
  case True
  then show ?thesis by (simp add: float_of_int_def float_zero)
next
  case False
  let ?b = "bit_length \<bar>i\<bar>"
  from False have a: "0 < \<bar>i\<bar>" by simp
  from bit_length_bounds [OF a] assms have "(2::int) ^ nat (?b - 1) < 2 ^ 53" by linarith
  then have "nat (?b - 1) < 53" by (rule power_less_imp_less_exp [rotated]) simp
  with bit_length_pos [OF a] have b53: "?b \<le> 53" by linarith
  show ?thesis
  proof (cases "?b = 53")
    case True
    with round_ratio_small_int [OF False assms] show ?thesis
      by (simp add: float_of_int_def)
  next
    case False
    with b53 have "?b - 53 < 0" by simp
    with round_ratio_small_int [OF \<open>i \<noteq> 0\<close> assms] show ?thesis
      by (simp add: float_of_int_def)
  qed
qed

section \<open>Rounding is to the nearest float\<close>

text \<open>
  For a positive denominator, \<open>round_ratio n d\<close> is a float in normal form within half
  a unit of its last place of \<open>n / d\<close> (\<open>round_ratio_nearest\<close>), it is \<open>n / d\<close>
  itself when that is a float (\<open>round_ratio_exact\<close>), and it is finite below
  \<open>2 ^ 1023\<close> (\<open>round_ratio_finite\<close>).
\<close>

lemma fval_Finite: "fval (Finite m e) = Some (of_int m * 2 powi e)"
proof (cases "0 \<le> e")
  case True
  then show ?thesis by (simp add: power_int_def)
next
  case False
  then have "(2::rat) powi e = 1 / 2 ^ nat (- e)"
    by (simp add: power_int_def power_one_over)
  with False show ?thesis by simp
qed

lemma scale2_rat:
  "(of_int (scale2 x j) :: rat) = of_int x * (if 0 \<le> j then 2 powi j else 1)"
  by (simp add: scale2_def power_int_def)

lemma scale2_pos: "0 < x \<Longrightarrow> 0 < scale2 x j"
  by (simp add: scale2_def)

lemma ratio_scaled:
  "(of_int (scale2 a (- e)) :: rat) / of_int (scale2 d e) = of_int a / of_int d / 2 powi e"
proof (cases "0 \<le> e")
  case True
  then show ?thesis
    by (cases "e = 0") (simp_all add: scale2_rat)
next
  case False
  then have "(2::rat) powi (- e) = 1 / 2 powi e"
    by (simp add: power_int_minus_divide)
  with False show ?thesis
    by (simp add: scale2_rat)
qed

lemma le_scaled:
  assumes "0 < y"
  shows "scale2 y j \<le> scale2 x (- j) \<longleftrightarrow> (of_int y :: rat) * 2 powi j \<le> of_int x"
proof -
  have "scale2 y j \<le> scale2 x (- j) \<longleftrightarrow>
          (of_int (scale2 y j) :: rat) \<le> of_int (scale2 x (- j))"
    by simp
  also have "\<dots> \<longleftrightarrow> (of_int y :: rat) * 2 powi j \<le> of_int x"
  proof (cases "0 \<le> j")
    case True
    then show ?thesis by (cases "j = 0") (simp_all add: scale2_rat)
  next
    case False
    have p: "(0::rat) < 2 powi j" by simp
    have "(2::rat) powi (- j) = 1 / 2 powi j"
      by (simp add: power_int_minus_divide)
    with False p show ?thesis
      by (simp add: scale2_rat pos_le_divide_eq)
  qed
  finally show ?thesis .
qed

lemma bit_length_bounds_rat:
  assumes "0 < a"
  shows "(2::rat) powi (bit_length a - 1) \<le> of_int a" and "(of_int a :: rat) < 2 powi bit_length a"
proof -
  from bit_length_pos [OF assms] have p: "1 \<le> bit_length a" .
  from bit_length_bounds [OF assms]
  have lo: "2 ^ nat (bit_length a - 1) \<le> a" and hi: "a < 2 ^ nat (bit_length a)" by simp_all
  from lo have "(of_int (2 ^ nat (bit_length a - 1)) :: rat) \<le> of_int a"
    by (simp only: of_int_le_iff)
  with p show "(2::rat) powi (bit_length a - 1) \<le> of_int a"
    by (simp add: power_int_def)
  from hi have "(of_int a :: rat) < of_int (2 ^ nat (bit_length a))"
    by (simp only: of_int_less_iff)
  with p show "(of_int a :: rat) < 2 powi bit_length a"
    by (simp add: power_int_def)
qed

lemma floor_log2_bounds:
  assumes "0 < a" and "0 < d"
  defines "fl \<equiv> floor_log2 a d (bit_length a - bit_length d)"
  shows "(2::rat) powi fl \<le> of_int a / of_int d" and "(of_int a :: rat) / of_int d < 2 powi (fl + 1)"
proof -
  let ?k = "bit_length a - bit_length d"
  let ?r = "(of_int a :: rat) / of_int d"
  from assms have d: "(0::rat) < of_int d" and a: "(0::rat) < of_int a" by simp_all
  have up: "?r < 2 powi (?k + 1)"
  proof -
    have "(of_int a :: rat) < 2 powi bit_length a"
      by (rule bit_length_bounds_rat(2) [OF assms(1)])
    also have "\<dots> = 2 powi (?k + 1) * 2 powi (bit_length d - 1)"
      by (simp add: power_int_add [symmetric])
    also have "\<dots> \<le> 2 powi (?k + 1) * of_int d"
      using bit_length_bounds_rat(1) [OF assms(2)] by (simp add: mult_left_mono)
    finally show ?thesis using d by (simp add: field_simps)
  qed
  have low: "2 powi (?k - 1) < ?r"
  proof -
    have "(2::rat) powi (?k - 1) * of_int d < 2 powi (?k - 1) * 2 powi bit_length d"
      using bit_length_bounds_rat(2) [OF assms(2)] by (simp add: mult_strict_left_mono)
    also have "\<dots> = 2 powi (bit_length a - 1)"
      by (simp add: power_int_add [symmetric])
    also have "\<dots> \<le> of_int a"
      by (rule bit_length_bounds_rat(1) [OF assms(1)])
    finally show ?thesis using d by (simp add: field_simps)
  qed
  show "(2::rat) powi fl \<le> ?r"
  proof (cases "scale2 d ?k \<le> scale2 a (- ?k)")
    case True
    then have "(of_int d :: rat) * 2 powi ?k \<le> of_int a"
      using le_scaled [OF assms(2), of ?k a] by blast
    with d True show ?thesis by (simp add: fl_def floor_log2_def field_simps)
  next
    case False
    with low show ?thesis by (simp add: fl_def floor_log2_def)
  qed
  show "?r < 2 powi (fl + 1)"
  proof (cases "scale2 d ?k \<le> scale2 a (- ?k)")
    case True
    with up show ?thesis by (simp add: fl_def floor_log2_def)
  next
    case False
    then have "\<not> (of_int d :: rat) * 2 powi ?k \<le> of_int a"
      using le_scaled [OF assms(2), of ?k a] by blast
    with d False show ?thesis by (simp add: fl_def floor_log2_def field_simps)
  qed
qed


lemma power_int_2_less_imp: "(2::rat) powi i < 2 powi j \<Longrightarrow> i < j"
proof (rule ccontr)
  assume a: "(2::rat) powi i < 2 powi j" and "\<not> i < j"
  then have "j \<le> i" by simp
  then have "(2::rat) powi j \<le> 2 powi i" by (rule power_int_increasing) simp
  with a show False by simp
qed

lemma quantize_bounds:
  assumes "0 < den" and "0 \<le> num"
  shows "num div den \<le> quantize num den" and "quantize num den \<le> num div den + 1"
    and "\<bar>of_int (quantize num den) - (of_int num :: rat) / of_int den\<bar> \<le> 1 / 2"
proof -
  let ?q = "num div den" and ?r = "num mod den"
  define f :: rat where "f = of_int ?r / of_int den"
  show "?q \<le> quantize num den" "quantize num den \<le> ?q + 1"
    by (simp_all add: quantize_def nearest_even_def)
  have r: "0 \<le> ?r" "?r < den" using assms(1) by simp_all
  have "num = den * ?q + ?r" by simp
  then have "(of_int num :: rat) = of_int (den * ?q + ?r)" by (rule arg_cong)
  then have "(of_int num :: rat) = of_int den * of_int ?q + of_int ?r"
    by (simp only: of_int_add of_int_mult)
  then have "(of_int num :: rat) / of_int den =
      (of_int den * of_int ?q + of_int ?r) / of_int den"
    by (simp only:)
  also have "\<dots> = of_int ?q + f"
    using assms(1) by (simp add: add_divide_distrib f_def)
  finally have split: "(of_int num :: rat) / of_int den = of_int ?q + f" .
  have f01: "0 \<le> f" "f < 1"
    using r assms(1) by (simp_all add: f_def)
  consider "2 * ?r < den" | "den < 2 * ?r" | "2 * ?r = den" by linarith
  then show "\<bar>of_int (quantize num den) - (of_int num :: rat) / of_int den\<bar> \<le> 1 / 2"
  proof cases
    case 1
    then have "(of_int (2 * ?r) :: rat) < of_int den" by (simp only: of_int_less_iff)
    then have "f < 1 / 2" using assms(1) by (simp add: f_def field_simps)
    moreover from 1 have "quantize num den = ?q" by (simp add: quantize_def nearest_even_def)
    ultimately show ?thesis using f01 by (simp add: split)
  next
    case 2
    then have "(of_int den :: rat) < of_int (2 * ?r)" by (simp only: of_int_less_iff)
    then have "1 / 2 < f" using assms(1) by (simp add: f_def field_simps)
    moreover from 2 have "quantize num den = ?q + 1"
      by (simp add: quantize_def nearest_even_def)
    ultimately show ?thesis using f01 by (simp add: split)
  next
    case 3
    then have "(of_int (2 * ?r) :: rat) = of_int den" by simp
    then have "f = 1 / 2" using assms(1) by (simp add: f_def field_simps)
    moreover from 3 have "quantize num den = ?q \<or> quantize num den = ?q + 1"
      by (simp add: quantize_def nearest_even_def)
    ultimately show ?thesis by (auto simp: split)
  qed
qed

lemma quantize_exact:
  assumes "0 < den"
  shows "quantize (k * den) den = k"
  using assms by (simp add: quantize_def nearest_even_def)


lemma round_ratio_core:
  assumes "0 < d" and "n \<noteq> 0"
  defines "E \<equiv> max (floor_log2 \<bar>n\<bar> d (bit_length \<bar>n\<bar> - bit_length d) - 52) (- 1074)"
  defines "M \<equiv> quantize (scale2 \<bar>n\<bar> (- E)) (scale2 d E)"
  shows "round_ratio n d = pack (sgn n) M E"
    and "\<bar>of_int M - (of_int \<bar>n\<bar> :: rat) / of_int d / 2 powi E\<bar> \<le> 1 / 2"
    and "0 \<le> M" and "M \<le> 2 ^ 53" and "E = - 1074 \<or> 2 ^ 52 \<le> M" and "- 1074 \<le> E"
proof -
  let ?a = "\<bar>n\<bar>"
  let ?fl = "floor_log2 ?a d (bit_length ?a - bit_length d)"
  let ?r = "(of_int ?a :: rat) / of_int d"
  let ?num = "scale2 ?a (- E)" and ?den = "scale2 d E"
  from assms(2) have a: "0 < ?a" by simp
  from floor_log2_bounds [OF a assms(1)]
  have lo: "2 powi ?fl \<le> ?r" and hi: "?r < 2 powi (?fl + 1)" by simp_all
  have den: "0 < ?den" using assms(1) by (rule scale2_pos)
  have num: "0 \<le> ?num" using scale2_pos [OF a, of "- E"] by simp
  have ratio: "(of_int ?num :: rat) / of_int ?den = ?r / 2 powi E"
    by (rule ratio_scaled)
  show "round_ratio n d = pack (sgn n) M E"
    using assms(2) by (simp add: round_ratio_def round_at_def E_def M_def)
  from quantize_bounds(3) [OF den num]
  show "\<bar>of_int M - ?r / 2 powi E\<bar> \<le> 1 / 2"
    by (simp only: M_def ratio)
  have "\<lfloor>(of_int ?num :: rat) / of_int ?den\<rfloor> = ?num div ?den"
    by (rule floor_divide_of_int_eq)
  then have fl: "?num div ?den = \<lfloor>?r / 2 powi E\<rfloor>"
    by (simp only: ratio)
  show "- 1074 \<le> E" by (simp add: E_def)
  have p: "(0::rat) < 2 powi E" by simp
  show "0 \<le> M"
  proof -
    have "0 \<le> ?num div ?den" using num den by (simp add: pos_imp_zdiv_nonneg_iff)
    with quantize_bounds(1) [OF den num] show ?thesis by (simp add: M_def)
  qed
  show "M \<le> 2 ^ 53"
  proof -
    have "?fl + 1 - E \<le> 53" by (simp add: E_def)
    then have "(2::rat) powi (?fl + 1 - E) \<le> 2 powi 53"
      by (rule power_int_increasing) simp
    moreover have "?r / 2 powi E < 2 powi (?fl + 1) / 2 powi E"
      by (rule divide_strict_right_mono [OF hi p])
    moreover have "(2::rat) powi (?fl + 1) / 2 powi E = 2 powi (?fl + 1 - E)"
      by (simp add: power_int_diff)
    ultimately have "?r / 2 powi E < of_int (2 ^ 53)" by simp
    then have "\<lfloor>?r / 2 powi E\<rfloor> < 2 ^ 53" by (simp only: floor_less_iff)
    with fl quantize_bounds(2) [OF den num] show ?thesis unfolding M_def by linarith
  qed
  show "E = - 1074 \<or> 2 ^ 52 \<le> M"
  proof (cases "E = - 1074")
    case True
    then show ?thesis by simp
  next
    case False
    then have E: "E = ?fl - 52" by (simp add: E_def max_def split: if_splits)
    have "(2::rat) powi 52 = 2 powi (?fl - E)" by (simp add: E)
    also have "\<dots> = 2 powi ?fl / 2 powi E" by (simp add: power_int_diff)
    also have "\<dots> \<le> ?r / 2 powi E" by (rule divide_right_mono [OF lo]) simp
    finally have "of_int (2 ^ 52) \<le> ?r / 2 powi E" by simp
    then have "2 ^ 52 \<le> \<lfloor>?r / 2 powi E\<rfloor>" by (simp only: le_floor_iff)
    with fl quantize_bounds(1) [OF den num] show ?thesis unfolding M_def by linarith
  qed
qed


lemma signed_error:
  assumes "n \<noteq> 0"
  shows "\<bar>of_int (sgn n * M) * 2 powi E - (of_int n :: rat) / of_int d\<bar> =
           2 powi E * \<bar>of_int M - of_int \<bar>n\<bar> / of_int d / 2 powi E\<bar>"
proof -
  have p: "(0::rat) < 2 powi E" by simp
  have n: "(of_int n :: rat) = of_int (sgn n) * of_int \<bar>n\<bar>"
    by (simp only: of_int_mult [symmetric] sgn_mult_abs)
  have s: "\<bar>(of_int (sgn n) :: rat)\<bar> = 1" using assms by (simp add: sgn_if)
  have "of_int (sgn n * M) * 2 powi E - (of_int n :: rat) / of_int d =
          of_int (sgn n) * (of_int M * 2 powi E - of_int \<bar>n\<bar> / of_int d)"
    by (subst n) (simp add: algebra_simps)
  also have "of_int M * 2 powi E - (of_int \<bar>n\<bar> :: rat) / of_int d =
          2 powi E * (of_int M - of_int \<bar>n\<bar> / of_int d / 2 powi E)"
    using p by (simp add: algebra_simps)
  finally show ?thesis
    using p by (simp only: abs_mult s mult_1 abs_of_pos)
qed

lemma round_ratio_nearest:
  assumes "0 < d" and "round_ratio n d = Finite m e"
  shows "normal_form m e"
    and "\<bar>of_int m * 2 powi e - (of_int n :: rat) / of_int d\<bar> \<le> 2 powi e / 2"
proof -
  have "normal_form m e \<and> \<bar>of_int m * 2 powi e - (of_int n :: rat) / of_int d\<bar> \<le> 2 powi e / 2"
  proof (cases "n = 0")
    case True
    with assms(2) show ?thesis by (auto simp: round_ratio_def normal_form_def)
  next
    case False
    define E where "E = max (floor_log2 \<bar>n\<bar> d (bit_length \<bar>n\<bar> - bit_length d) - 52) (- 1074)"
    define M where "M = quantize (scale2 \<bar>n\<bar> (- E)) (scale2 d E)"
    note core = round_ratio_core [OF assms(1) False, folded E_def, folded M_def]
    have p: "(0::rat) < 2 powi E" by simp
    from core(2) p
    have "2 powi E * \<bar>of_int M - (of_int \<bar>n\<bar> :: rat) / of_int d / 2 powi E\<bar> \<le> 2 powi E * (1 / 2)"
      by (simp only: mult_le_cancel_left_pos)
    moreover have "(2::rat) powi E * (1 / 2) = 2 powi E / 2" by simp
    ultimately
    have "2 powi E * \<bar>of_int M - (of_int \<bar>n\<bar> :: rat) / of_int d / 2 powi E\<bar> \<le> 2 powi E / 2"
      by (simp only:)
    then have err: "\<bar>of_int (sgn n * M) * 2 powi E - (of_int n :: rat) / of_int d\<bar> \<le> 2 powi E / 2"
      by (simp only: signed_error [OF False])
    have sg: "\<bar>sgn n * M\<bar> = M" using False core(3) by (simp add: abs_mult sgn_if)
    show ?thesis
    proof (cases "M = 2 ^ 53")
      case True
      with assms(2) core(1) have m: "m = sgn n * 2 ^ 52" and e: "e = E + 1" and "E + 1 \<le> 971"
        by (auto simp: pack_def split: if_splits)
      have am: "\<bar>m\<bar> = 2 ^ 52" using False by (simp add: m abs_mult sgn_if)
      have nf: "normal_form m e"
        using am core(6) \<open>E + 1 \<le> 971\<close> by (simp add: normal_form_def e)
      have "(of_int m :: rat) * 2 powi e = of_int (sgn n * M) * 2 powi E"
        by (simp add: m e True power_int_add)
      moreover have "(2::rat) powi E \<le> 2 powi e"
        unfolding e by (rule power_int_increasing) simp_all
      ultimately show ?thesis using nf err by simp
    next
      case F: False
      with assms(2) core(1) have m: "m = sgn n * M" and e: "e = E" and "E \<le> 971"
        by (auto simp: pack_def split: if_splits)
      from core(4) F have "M < 2 ^ 53" by simp
      with core(5,6) sg \<open>E \<le> 971\<close> have "normal_form m e"
        by (auto simp: normal_form_def m e)
      with err show ?thesis by (simp add: m e)
    qed
  qed
  then show "normal_form m e"
    and "\<bar>of_int m * 2 powi e - (of_int n :: rat) / of_int d\<bar> \<le> 2 powi e / 2"
    by simp_all
qed


lemma round_ratio_exact:
  assumes "0 < d" and "normal_form m e"
    and "(of_int n :: rat) / of_int d = of_int m * 2 powi e"
  shows "round_ratio n d = Finite m e"
proof (cases "m = 0")
  case True
  with assms(1,3) have "n = 0" by simp
  moreover from True assms(2) have "e = - 1074" by (simp add: normal_form_def)
  ultimately show ?thesis using True by (simp add: round_ratio_def)
next
  case False
  have p: "(0::rat) < 2 powi e" by simp
  have d: "(0::rat) < of_int d" using assms(1) by simp
  from assms(3) d have n_eq: "(of_int n :: rat) = of_int m * 2 powi e * of_int d"
    by (simp add: field_simps)
  have n0: "n \<noteq> 0"
  proof
    assume "n = 0"
    with n_eq p d have "(of_int m :: rat) = 0" by simp
    with False show False by simp
  qed
  have sgn: "sgn n = sgn m"
  proof -
    define c :: rat where "c = 2 powi e * of_int d"
    have c: "0 < c" using p d by (simp add: c_def)
    have "(of_int n :: rat) = of_int m * c" by (simp add: n_eq c_def)
    then have "(0 < (of_int n :: rat)) = (0 < (of_int m :: rat))"
      using c by (simp add: zero_less_mult_iff)
    then have "(0 < n) = (0 < m)" by (simp only: of_int_0_less_iff)
    with n0 False show ?thesis by (simp add: sgn_if)
  qed
  let ?a = "\<bar>n\<bar>"
  let ?fl = "floor_log2 ?a d (bit_length ?a - bit_length d)"
  let ?r = "(of_int ?a :: rat) / of_int d"
  from n0 have a: "0 < ?a" by simp
  have r: "?r = of_int \<bar>m\<bar> * 2 powi e"
  proof -
    have "?r = \<bar>(of_int n :: rat) / of_int d\<bar>" using d by (simp add: abs_divide)
    also have "\<dots> = \<bar>of_int m * 2 powi e\<bar>" by (simp only: assms(3))
    also have "\<dots> = of_int \<bar>m\<bar> * 2 powi e" using p by (simp add: abs_mult)
    finally show ?thesis .
  qed
  from floor_log2_bounds [OF a assms(1)]
  have lo: "2 powi ?fl \<le> ?r" and hi: "?r < 2 powi (?fl + 1)" by simp_all
  define E where "E = max (?fl - 52) (- 1074)"
  define M where "M = quantize (scale2 ?a (- E)) (scale2 d E)"
  note core = round_ratio_core [OF assms(1) n0, folded E_def, folded M_def]
  from assms(2) have e1: "- 1074 \<le> e" and e2: "e \<le> 971" and m53: "\<bar>m\<bar> < 2 ^ 53"
    and nf: "e = - 1074 \<or> 2 ^ 52 \<le> \<bar>m\<bar>"
    by (simp_all add: normal_form_def)
  have up: "?r < 2 powi (53 + e)"
  proof -
    from m53 have "(of_int \<bar>m\<bar> :: rat) < of_int (2 ^ 53)" by (simp only: of_int_less_iff)
    then have "(of_int \<bar>m\<bar> :: rat) * 2 powi e < of_int (2 ^ 53) * 2 powi e"
      by (rule mult_strict_right_mono [OF _ p])
    also have "(of_int (2 ^ 53) :: rat) * 2 powi e = 2 powi (53 + e)"
      by (simp add: power_int_add)
    finally show ?thesis by (simp only: r)
  qed
  have E: "E = e"
  proof (cases "2 ^ 52 \<le> \<bar>m\<bar>")
    case True
    then have "(of_int (2 ^ 52) :: rat) \<le> of_int \<bar>m\<bar>" by (simp only: of_int_le_iff)
    then have "(of_int (2 ^ 52) :: rat) * 2 powi e \<le> of_int \<bar>m\<bar> * 2 powi e"
      by (rule mult_right_mono) simp
    moreover have "(of_int (2 ^ 52) :: rat) * 2 powi e = 2 powi (52 + e)"
      by (simp add: power_int_add)
    ultimately have "(2::rat) powi (52 + e) \<le> ?r" by (simp only: r)
    with hi have "(2::rat) powi (52 + e) < 2 powi (?fl + 1)" by simp
    then have "52 + e < ?fl + 1" by (rule power_int_2_less_imp)
    moreover from lo up have "(2::rat) powi ?fl < 2 powi (53 + e)" by simp
    then have "?fl < 53 + e" by (rule power_int_2_less_imp)
    ultimately have "?fl = 52 + e" by simp
    with e1 show ?thesis by (simp add: E_def)
  next
    case False
    with nf have e: "e = - 1074" by simp
    from False have "\<bar>m\<bar> < 2 ^ 52" by simp
    then have "(of_int \<bar>m\<bar> :: rat) < of_int (2 ^ 52)" by (simp only: of_int_less_iff)
    then have "(of_int \<bar>m\<bar> :: rat) * 2 powi e < of_int (2 ^ 52) * 2 powi e"
      by (rule mult_strict_right_mono [OF _ p])
    moreover have "(of_int (2 ^ 52) :: rat) * 2 powi e = 2 powi (52 + e)"
      by (simp add: power_int_add)
    ultimately have "?r < 2 powi (52 + e)" by (simp only: r)
    with lo have "(2::rat) powi ?fl < 2 powi (52 + e)" by simp
    then have "?fl < 52 + e" by (rule power_int_2_less_imp)
    with e show ?thesis by (simp add: E_def)
  qed
  have den: "0 < scale2 d E" using assms(1) by (rule scale2_pos)
  have "(of_int (scale2 ?a (- E)) :: rat) / of_int (scale2 d E) = ?r / 2 powi E"
    by (rule ratio_scaled)
  also have "\<dots> = of_int \<bar>m\<bar> * 2 powi e / 2 powi e" by (simp only: r E)
  also have "\<dots> = of_int \<bar>m\<bar>" using p by simp
  finally have "(of_int (scale2 ?a (- E)) :: rat) / of_int (scale2 d E) = of_int \<bar>m\<bar>" .
  moreover have "(of_int (scale2 d E) :: rat) \<noteq> 0" using den by simp
  ultimately have "(of_int (scale2 ?a (- E)) :: rat) = of_int \<bar>m\<bar> * of_int (scale2 d E)"
    by (metis nonzero_divide_eq_eq)
  then have "(of_int (scale2 ?a (- E)) :: rat) = of_int (\<bar>m\<bar> * scale2 d E)"
    by (simp only: of_int_mult)
  then have "scale2 ?a (- E) = \<bar>m\<bar> * scale2 d E" by (simp only: of_int_eq_iff)
  then have M: "M = \<bar>m\<bar>" by (simp only: M_def quantize_exact [OF den])
  have "pack (sgn n) \<bar>m\<bar> e = Finite (sgn m * \<bar>m\<bar>) e"
    using m53 e2 by (simp add: pack_def sgn)
  then show ?thesis by (simp only: core(1) M E sgn_mult_abs)
qed


lemma round_ratio_finite:
  assumes "0 < d" and "\<bar>(of_int n :: rat) / of_int d\<bar> < 2 powi 1023"
  shows "\<exists>m e. round_ratio n d = Finite m e"
proof (cases "n = 0")
  case True
  then show ?thesis by (simp add: round_ratio_def)
next
  case False
  let ?a = "\<bar>n\<bar>"
  let ?fl = "floor_log2 ?a d (bit_length ?a - bit_length d)"
  from False have a: "0 < ?a" by simp
  define E where "E = max (?fl - 52) (- 1074)"
  define M where "M = quantize (scale2 ?a (- E)) (scale2 d E)"
  note core = round_ratio_core [OF assms(1) False, folded E_def, folded M_def]
  have eq: "(of_int ?a :: rat) / of_int d = \<bar>(of_int n :: rat) / of_int d\<bar>"
    using assms(1) by (simp add: abs_divide)
  have "(2::rat) powi ?fl \<le> \<bar>(of_int n :: rat) / of_int d\<bar>"
    using floor_log2_bounds(1) [OF a assms(1)] by (simp only: eq)
  from this assms(2) have "(2::rat) powi ?fl < 2 powi 1023" by (rule le_less_trans)
  then have "?fl < 1023" by (rule power_int_2_less_imp)
  then have "E + 1 \<le> 971" by (simp add: E_def)
  then show ?thesis by (simp add: core(1) pack_def)
qed

lemma scaled_ratio:
  "(of_int (scale2 n j) :: rat) / of_int (scale2 1 (- j)) = of_int n * 2 powi j"
proof -
  have "(of_int (scale2 n (- (- j))) :: rat) / of_int (scale2 1 (- j)) =
          of_int n / of_int 1 / 2 powi (- j)"
    by (rule ratio_scaled)
  then show ?thesis by (simp add: power_int_minus divide_inverse)
qed

lemma round_scaled_normal:
  assumes "round_scaled n j = Finite m e"
  shows "normal_form m e"
proof -
  have "0 < scale2 1 (- j)" by (rule scale2_pos) simp
  moreover from assms have "round_ratio (scale2 n j) (scale2 1 (- j)) = Finite m e"
    by (simp only: round_scaled_def)
  ultimately show ?thesis by (rule round_ratio_nearest(1))
qed

lemma round_scaled_exact:
  assumes "normal_form m e" and "(of_int n :: rat) * 2 powi j = of_int m * 2 powi e"
  shows "round_scaled n j = Finite m e"
  unfolding round_scaled_def
proof (rule round_ratio_exact [OF _ assms(1)])
  show "0 < scale2 1 (- j)" by (rule scale2_pos) simp
  show "(of_int (scale2 n j) :: rat) / of_int (scale2 1 (- j)) = of_int m * 2 powi e"
    by (simp only: scaled_ratio assms(2))
qed

lemma fmul_normal: "fmul x y = Finite m e \<Longrightarrow> normal_form m e"
  by (cases x; cases y) (auto dest: round_scaled_normal split: if_splits)

lemma fadd_normal: "fadd x y = Finite m e \<Longrightarrow> normal_form m e"
  by (cases x; cases y) (auto dest: round_scaled_normal)

text \<open>Multiplying by -1.0 negates, without rounding.\<close>

lemma fmul_minus_one:
  assumes "normal_form m e"
  shows "fmul (Finite m e) (Finite (- (2 ^ 52)) (- 52)) = Finite (- m) e"
proof -
  from assms have nf: "normal_form (- m) e" by (simp add: normal_form_def)
  have "(2::rat) powi (52 + (e - 52)) = 2 powi 52 * 2 powi (e - 52)"
    by (rule power_int_add) simp
  then have k: "(2::rat) powi 52 * 2 powi (e - 52) = 2 powi e" by simp
  have "(of_int (m * - (2 ^ 52)) :: rat) * 2 powi (e + - 52) =
          - of_int m * (2 powi 52 * 2 powi (e - 52))"
    by simp
  also have "\<dots> = of_int (- m) * 2 powi e" by (simp only: k of_int_minus)
  finally have "round_scaled (m * - (2 ^ 52)) (e + - 52) = Finite (- m) e"
    by (rule round_scaled_exact [OF nf])
  then show ?thesis by (simp only: fmul.simps)
qed

lemma fmul_fmul_minus_one:
  "fmul (fmul x y) (Finite (- (2 ^ 52)) (- 52)) = fneg (fmul x y)"
proof (cases "fmul x y")
  case (Finite m e)
  from fmul_normal [OF this] have "normal_form m e" .
  then show ?thesis by (simp only: Finite fmul_minus_one fneg.simps)
qed simp_all

text \<open>The quotient of two integers that are floats.\<close>

lemma fdiv_ratio:
  fixes ma mb ea eb :: int
  assumes "mb \<noteq> 0"
  defines "N \<equiv> scale2 (ma * sgn mb) (ea - eb)" and "D \<equiv> scale2 \<bar>mb\<bar> (eb - ea)"
  shows "fdiv (Finite ma ea) (Finite mb eb) = Inr (round_ratio N D)" and "0 < D"
    and "(of_int N :: rat) / of_int D = (of_int ma * 2 powi ea) / (of_int mb * 2 powi eb)"
proof -
  show "fdiv (Finite ma ea) (Finite mb eb) = Inr (round_ratio N D)"
    using assms(1) by (simp add: N_def D_def)
  show "0 < D" unfolding D_def by (rule scale2_pos) (use assms(1) in simp)
  have "(of_int (scale2 (ma * sgn mb) (- (eb - ea))) :: rat) / of_int (scale2 \<bar>mb\<bar> (eb - ea)) =
          of_int (ma * sgn mb) / of_int \<bar>mb\<bar> / 2 powi (eb - ea)"
    by (rule ratio_scaled)
  then have "(of_int N :: rat) / of_int D =
          of_int (ma * sgn mb) / of_int \<bar>mb\<bar> / 2 powi (eb - ea)"
    by (simp only: N_def D_def minus_diff_eq)
  also have "(of_int (ma * sgn mb) :: rat) / of_int \<bar>mb\<bar> = of_int ma / of_int mb"
    using assms(1) by (cases "0 < mb") (simp_all add: sgn_if)
  also have "(2::rat) powi (eb - ea) = 2 powi eb / 2 powi ea"
    by (simp add: power_int_diff)
  finally show "(of_int N :: rat) / of_int D = (of_int ma * 2 powi ea) / (of_int mb * 2 powi eb)"
    by simp
qed

lemma fdiv_round_ratio:
  fixes ma mb ea eb :: int
  assumes "mb \<noteq> 0"
  shows "\<exists>N D. fdiv (Finite ma ea) (Finite mb eb) = Inr (round_ratio N D) \<and> 0 < D \<and>
           (of_int N :: rat) / of_int D = (of_int ma * 2 powi ea) / (of_int mb * 2 powi eb)"
  using fdiv_ratio [OF assms] by blast

lemma float_of_int_exact_Finite:
  assumes "\<bar>i\<bar> < 2 ^ 53"
  shows "\<exists>m e. float_of_int i = Inr (Finite m e) \<and> (of_int m :: rat) * 2 powi e = of_int i"
proof -
  from float_of_int_exact [OF assms] obtain x
    where x: "float_of_int i = Inr x" "fval x = Some (of_int i)" by blast
  from x(2) obtain m e where f: "x = Finite m e" by (cases x) simp_all
  with x(2) have "(of_int m :: rat) * 2 powi e = of_int i" by (simp only: fval_Finite) simp
  with x(1) f show ?thesis by blast
qed

lemma scale_axis_nearest:
  assumes "M \<noteq> 0" and "\<bar>M\<bar> < 2 ^ 53" and "\<bar>v\<bar> < 2 ^ 53"
  shows "\<exists>m e. scale_axis v M = Inr (Finite m e) \<and> normal_form m e \<and>
           \<bar>of_int m * 2 powi e - (of_int v :: rat) / of_int M\<bar> \<le> 2 powi e / 2 \<and>
           (\<forall>m' e'. normal_form m' e' \<and> (of_int v :: rat) / of_int M = of_int m' * 2 powi e'
              \<longrightarrow> m = m' \<and> e = e')"
proof -
  from float_of_int_exact_Finite [OF assms(3)] obtain m1 e1
    where x: "float_of_int v = Inr (Finite m1 e1)" "(of_int m1 :: rat) * 2 powi e1 = of_int v"
    by blast
  from float_of_int_exact_Finite [OF assms(2)] obtain m2 e2
    where y: "float_of_int M = Inr (Finite m2 e2)" "(of_int m2 :: rat) * 2 powi e2 = of_int M"
    by blast
  from y(2) assms(1) have m2: "m2 \<noteq> 0" by auto
  from fdiv_round_ratio [OF m2, of m1 e1 e2] obtain N D
    where dv: "fdiv (Finite m1 e1) (Finite m2 e2) = Inr (round_ratio N D)" "0 < D"
      "(of_int N :: rat) / of_int D = (of_int m1 * 2 powi e1) / (of_int m2 * 2 powi e2)"
    by blast
  have ratio: "(of_int N :: rat) / of_int D = of_int v / of_int M"
    by (simp only: dv(3) x(2) y(2))
  have sc: "scale_axis v M = Inr (round_ratio N D)"
    by (simp add: scale_axis_def x(1) y(1) dv(1) del: fdiv.simps)
  have "\<bar>(of_int v :: rat) / of_int M\<bar> \<le> \<bar>of_int v\<bar>"
  proof -
    from assms(1) have "1 \<le> \<bar>M\<bar>" by simp
    then have "(1::rat) \<le> \<bar>of_int M\<bar>" by (simp only: of_int_abs [symmetric] of_int_1_le_iff)
    then have "\<bar>(of_int v :: rat)\<bar> / \<bar>of_int M\<bar> \<le> \<bar>of_int v\<bar> / 1"
      by (intro divide_left_mono) simp_all
    then show ?thesis by (simp add: abs_divide)
  qed
  also have "\<bar>(of_int v :: rat)\<bar> < of_int (2 ^ 53)"
    using assms(3) by (simp only: of_int_abs [symmetric] of_int_less_iff)
  also have "(of_int (2 ^ 53) :: rat) = 2 powi 53" by simp
  also have "(2::rat) powi 53 \<le> 2 powi 1023" by (rule power_int_increasing) simp_all
  finally have "\<bar>(of_int N :: rat) / of_int D\<bar> < 2 powi 1023" by (simp only: ratio)
  from round_ratio_finite [OF dv(2) this] obtain m e where r: "round_ratio N D = Finite m e"
    by blast
  from round_ratio_nearest [OF dv(2) r]
  have nf: "normal_form m e"
    and err: "\<bar>of_int m * 2 powi e - (of_int v :: rat) / of_int M\<bar> \<le> 2 powi e / 2"
    by (simp_all only: ratio)
  have "m = m' \<and> e = e'"
    if "normal_form m' e' \<and> (of_int v :: rat) / of_int M = of_int m' * 2 powi e'" for m' e'
  proof -
    from that have "normal_form m' e'" and "(of_int N :: rat) / of_int D = of_int m' * 2 powi e'"
      by (simp_all only: ratio)
    from round_ratio_exact [OF dv(2) this] r show ?thesis by simp
  qed
  then have uniq: "\<forall>m' e'. normal_form m' e' \<and>
      (of_int v :: rat) / of_int M = of_int m' * 2 powi e' \<longrightarrow> m = m' \<and> e = e'"
    by (intro allI impI)
  have res: "scale_axis v M = Inr (Finite m e)" by (simp only: sc r)
  show ?thesis
    by (rule exI [of _ m], rule exI [of _ e]) (intro conjI res nf err uniq)
qed

text \<open>
  Sums and products of finite floats are the exact sum and product, rounded to the
  nearest float.
\<close>

lemma round_scaled_nearest:
  assumes "round_scaled n j = Finite m e"
  shows "normal_form m e"
    and "\<bar>of_int m * 2 powi e - (of_int n :: rat) * 2 powi j\<bar> \<le> 2 powi e / 2"
proof -
  have pos: "0 < scale2 1 (- j)" by (rule scale2_pos) simp
  from assms have r: "round_ratio (scale2 n j) (scale2 1 (- j)) = Finite m e"
    by (simp only: round_scaled_def)
  from round_ratio_nearest [OF pos r]
  show "normal_form m e"
    and "\<bar>of_int m * 2 powi e - (of_int n :: rat) * 2 powi j\<bar> \<le> 2 powi e / 2"
    by (simp_all only: scaled_ratio)
qed

lemma fmul_nearest:
  assumes "fmul (Finite ma ea) (Finite mb eb) = Finite m e"
  shows "normal_form m e"
    and "\<bar>of_int m * 2 powi e - (of_int ma * 2 powi ea) * (of_int mb * 2 powi eb :: rat)\<bar>
           \<le> 2 powi e / 2"
proof -
  from assms have r: "round_scaled (ma * mb) (ea + eb) = Finite m e" by simp
  have v: "(of_int (ma * mb) :: rat) * 2 powi (ea + eb) =
          (of_int ma * 2 powi ea) * (of_int mb * 2 powi eb)"
    by (simp add: power_int_add)
  from round_scaled_nearest [OF r]
  show "normal_form m e"
    and "\<bar>of_int m * 2 powi e - (of_int ma * 2 powi ea) * (of_int mb * 2 powi eb :: rat)\<bar>
           \<le> 2 powi e / 2"
    by (simp_all only: v)
qed

lemma aligned_rat:
  assumes "j \<le> e"
  shows "(of_int (scale2 m (e - j)) :: rat) * 2 powi j = of_int m * 2 powi e"
proof -
  from assms have "(of_int (scale2 m (e - j)) :: rat) = of_int m * 2 powi (e - j)"
    by (simp add: scale2_rat)
  moreover have "(2::rat) powi (e - j + j) = 2 powi (e - j) * 2 powi j"
    by (rule power_int_add) simp
  ultimately show ?thesis by simp
qed

lemma fadd_nearest:
  assumes "fadd (Finite ma ea) (Finite mb eb) = Finite m e"
  shows "normal_form m e"
    and "\<bar>of_int m * 2 powi e - ((of_int ma * 2 powi ea) + (of_int mb * 2 powi eb :: rat))\<bar>
           \<le> 2 powi e / 2"
proof -
  let ?j = "min ea eb"
  from assms
  have r: "round_scaled (scale2 ma (ea - ?j) + scale2 mb (eb - ?j)) ?j = Finite m e"
    by simp
  have "(of_int (scale2 ma (ea - ?j) + scale2 mb (eb - ?j)) :: rat) * 2 powi ?j =
          of_int (scale2 ma (ea - ?j)) * 2 powi ?j + of_int (scale2 mb (eb - ?j)) * 2 powi ?j"
    by (simp add: algebra_simps)
  also have "\<dots> = (of_int ma * 2 powi ea) + (of_int mb * 2 powi eb)"
    by (simp only: aligned_rat [OF min.cobounded1] aligned_rat [OF min.cobounded2])
  finally have v: "(of_int (scale2 ma (ea - ?j) + scale2 mb (eb - ?j)) :: rat) * 2 powi ?j =
      (of_int ma * 2 powi ea) + (of_int mb * 2 powi eb)" .
  from round_scaled_nearest [OF r]
  show "normal_form m e"
    and "\<bar>of_int m * 2 powi e - ((of_int ma * 2 powi ea) + (of_int mb * 2 powi eb :: rat))\<bar>
           \<le> 2 powi e / 2"
    by (simp_all only: v)
qed

section \<open>The initial state\<close>

lemma init_given_device:
  "init (Some d) cfg search_arg verbose_arg scans =
     Some (Inr \<lparr> verbose = verbose_arg,
                 running = False,
                 state = Map.empty,
                 angle = VFloat (Finite 0 (- 1074)),
                 throttle = Finite 0 (- 1074),
                 throttle_scale = Finite (2 ^ 52) (- 52),
                 throttle_scale_increment = Finite 7205759403792794 (- 57),
                 y_axis_direction = - 1,
                 drive_mode_toggle = Cycle [''user'', ''local_angle'', ''local''] 1,
                 drive_mode = ''user'',
                 recording_toggle = Cycle [True, False] 1,
                 recording = True,
                 btn_map = cfg_button_map cfg,
                 joystick_max_value =
                   (case cfg_joystick_max_value cfg of None \<Rightarrow> 1280 | Some m \<Rightarrow> m),
                 device_search_term =
                   (case search_arg of
                      None \<Rightarrow> (case cfg_device_search_term cfg of
                                 Some c \<Rightarrow> Str c | None \<Rightarrow> Num 1280)
                    | Some a \<Rightarrow> if a = []
                               then (case cfg_device_search_term cfg of
                                       Some c \<Rightarrow> Str c | None \<Rightarrow> Num 1280)
                               else Str a),
                 device = d \<rparr>)"
  by (simp add: init_def float_zero float_one float_increment Let_def)

lemma init_example:
  "init (Some example_device) example_config None False scans = Some (Inr example_controller)"
  by (simp add: init_given_device example_controller_def example_config_def)

lemma init_fields:
  assumes "init event_input_device cfg search_arg verbose_arg scans = Some (Inr s)"
  shows "angle s = VFloat (Finite 0 (- 1074))"
    and "throttle s = Finite 0 (- 1074)"
    and "throttle_scale s = Finite (2 ^ 52) (- 52)"
    and "throttle_scale_increment s = Finite 7205759403792794 (- 57)"
    and "y_axis_direction s = - 1"
    and "drive_mode s = ''user''"
    and "drive_mode_toggle s = Cycle [''user'', ''local_angle'', ''local''] 1"
    and "recording s = True"
    and "recording_toggle s = Cycle [True, False] 1"
    and "state s = Map.empty"
  using assms
  by (auto simp: init_def float_zero float_one float_increment Let_def
           split: option.splits sum.splits)

text \<open>
  C10. At session start the control state has angle 0.0, throttle 0.0, drive mode
  \<open>user\<close>, the first element of the cycle user, local_angle, local, recording \<open>True\<close>,
  the first element of the cycle True, False, and throttle scale 1.0. With a device
  given, the construction returns such a state.
\<close>

theorem init_control_state:
  "(\<exists>s. init (Some d) cfg search_arg verbose_arg scans = Some (Inr s)) \<and>
   (\<forall>s. init event_input_device cfg search_arg verbose_arg scans = Some (Inr s) \<longrightarrow>
        angle s = VFloat (Finite 0 (- 1074)) \<and> fval (throttle s) = Some 0 \<and>
        drive_mode s = hd [''user'', ''local_angle'', ''local''] \<and>
        drive_mode_toggle s = Cycle [''user'', ''local_angle'', ''local''] 1 \<and>
        recording s = hd [True, False] \<and>
        recording_toggle s = Cycle [True, False] 1 \<and>
        fval (throttle_scale s) = Some 1)"
proof (intro conjI allI impI)
  show "\<exists>s. init (Some d) cfg search_arg verbose_arg scans = Some (Inr s)"
    by (simp add: init_given_device)
next
  fix s
  assume a: "init event_input_device cfg search_arg verbose_arg scans = Some (Inr s)"
  show "angle s = VFloat (Finite 0 (- 1074))" by (rule init_fields(1) [OF a])
  show "fval (throttle s) = Some 0" by (simp add: init_fields(2) [OF a])
  show "drive_mode s = hd [''user'', ''local_angle'', ''local'']"
    by (simp add: init_fields(6) [OF a])
  show "drive_mode_toggle s = Cycle [''user'', ''local_angle'', ''local''] 1"
    by (rule init_fields(7) [OF a])
  show "recording s = hd [True, False]" by (simp add: init_fields(8) [OF a])
  show "recording_toggle s = Cycle [True, False] 1" by (rule init_fields(9) [OF a])
  show "fval (throttle_scale s) = Some 1" by (simp add: init_fields(3) [OF a])
qed

theorem init_control_state_witness:
  "init (Some example_device) example_config None False (\<lambda>k. []) = Some (Inr example_controller) \<and>
   angle example_controller = VFloat (Finite 0 (- 1074)) \<and>
   fval (throttle example_controller) = Some 0 \<and>
   drive_mode example_controller = ''user'' \<and>
   recording example_controller = True \<and>
   fval (throttle_scale example_controller) = Some 1"
  using init_control_state [of example_device example_config None False "\<lambda>k. []"
      "Some example_device"]
  by (simp add: init_example)

section \<open>Events without a button\<close>

lemma func_map_get_simps:
  "func_map_get None = None"
  "func_map_get (Some ''LEFT_STICK_X'') = Some update_angle"
  "func_map_get (Some ''LEFT_STICK_Y'') = Some update_throttle"
  "func_map_get (Some ''B'') = Some toggle_recording"
  "func_map_get (Some ''A'') = Some toggle_drive_mode"
  "func_map_get (Some ''PAD_UP'') = Some increment_throttle_scale"
  "func_map_get (Some ''PAD_DOWN'') = Some decrement_throttle_scale"
  by (simp_all add: func_map_get_def func_map_def)

lemma apply_event_None:
  "apply_event None val s = Inr (s\<lparr>state := (state s)(None \<mapsto> val)\<rparr>)"
  by (simp add: apply_event_def func_map_get_simps)

text \<open>
  C1, as the code has it. An event whose button is \<open>None\<close> is recorded too: its value is
  stored under the key \<open>None\<close> of \<open>self.state\<close>. The entries under button names and
  the angle, throttle, drive mode, recording flag and throttle scale are unchanged.
\<close>

theorem nil_button_recorded:
  "\<exists>s'. apply_event None val s = Inr s' \<and> state s' None = Some val \<and>
        (\<forall>b. state s' (Some b) = state s (Some b)) \<and>
        angle s' = angle s \<and> throttle s' = throttle s \<and> drive_mode s' = drive_mode s \<and>
        recording s' = recording s \<and> throttle_scale s' = throttle_scale s"
  by (simp add: apply_event_None)

text \<open>
  C1 as stated fails: after the event \<open>(None, 5)\<close> on the initial controller the
  dictionary has an entry that it did not have before.
\<close>

theorem nil_button_counterexample:
  "apply_event None (VInt 5) example_controller =
     Inr (example_controller\<lparr>state := [None \<mapsto> VInt 5]\<rparr>) \<and>
   state (example_controller\<lparr>state := [None \<mapsto> VInt 5]\<rparr>) \<noteq> state example_controller"
  by (simp add: apply_event_None example_controller_def)

section \<open>Losing the connection\<close>

lemma find_input_device_error:
  "find_input_device ds t = Inl e \<Longrightarrow> e = ValueError \<or> e = AttributeError"
proof -
  have "likely_devices t ds acc = Inl e' \<Longrightarrow> e' = AttributeError" for acc e'
    by (induction t ds acc rule: likely_devices.induct) auto
  then show "find_input_device ds t = Inl e \<Longrightarrow> e = ValueError \<or> e = AttributeError"
    by (auto simp: find_input_device_def split: sum.splits if_splits)
qed

lemma load_device_error_aux:
  assumes "load_device scans t = Some r"
  shows "\<forall>e. r = Inl e \<longrightarrow> e = ValueError \<or> e = AttributeError"
proof (rule load_device.raw_induct
    [where P = "\<lambda>scans t r. \<forall>e. r = Inl e \<longrightarrow> e = ValueError \<or> e = AttributeError",
      OF _ assms])
  fix f :: "(nat \<Rightarrow> dev list) \<Rightarrow> search_term \<Rightarrow> (error + dev) option"
  fix scans t r
  assume ih: "\<And>scans t r. f scans t = Some r
                \<Longrightarrow> \<forall>e. r = Inl e \<longrightarrow> e = ValueError \<or> e = AttributeError"
  assume step: "(case find_input_device (scans 0) t of
                   Inl e \<Rightarrow> Some (Inl e)
                 | Inr None \<Rightarrow> f (\<lambda>k. scans (Suc k)) t
                 | Inr (Some d) \<Rightarrow> Some (Inr d)) = Some r"
  show "\<forall>e. r = Inl e \<longrightarrow> e = ValueError \<or> e = AttributeError"
  proof (cases "find_input_device (scans 0) t")
    case (Inl e)
    with step find_input_device_error [OF Inl] show ?thesis by auto
  next
    case (Inr found)
    show ?thesis
    proof (cases found)
      case None
      with Inr step have "f (\<lambda>k. scans (Suc k)) t = Some r" by simp
      then show ?thesis by (rule ih)
    next
      case (Some d)
      with Inr step show ?thesis by auto
    qed
  qed
qed

lemma load_device_error:
  "load_device scans t = Some (Inl e) \<Longrightarrow> e = ValueError \<or> e = AttributeError"
  using load_device_error_aux by blast

lemma read_loop_lost:
  "read_loop s (Inl OSError) scans =
     (case load_device scans (device_search_term s) of
        None \<Rightarrow> None
      | Some (Inl e') \<Rightarrow> Some (Inl e')
      | Some (Inr d) \<Rightarrow> Some (Inr ((None, VNone), s\<lparr>device := d\<rparr>)))"
  by (simp add: read_loop_def)

text \<open>
  C9. When the read raises \<open>OSError\<close>, that error never reaches the caller of
  \<open>update_state_from_loop\<close>; and when the device is found again, the update returns,
  \<open>run\<close> returns the outputs as they were, and the angle, throttle, drive mode,
  recording flag and throttle scale are what they were before the read.
\<close>

theorem connection_lost_continuity:
  "update_state_from_loop s (Inl OSError) scans \<noteq> Some (Inl OSError) \<and>
   (\<forall>d. load_device scans (device_search_term s) = Some (Inr d) \<longrightarrow>
      (\<exists>s'. update_state_from_loop s (Inl OSError) scans = Some (Inr s') \<and>
            run s (Inl OSError) scans =
              Some (Inr ((angle s, throttle s, drive_mode s, recording s), s')) \<and>
            angle s' = angle s \<and> throttle s' = throttle s \<and>
            drive_mode s' = drive_mode s \<and> recording s' = recording s \<and>
            throttle_scale s' = throttle_scale s \<and> device s' = d))"
proof (intro conjI allI impI)
  show "update_state_from_loop s (Inl OSError) scans \<noteq> Some (Inl OSError)"
  proof
    assume a: "update_state_from_loop s (Inl OSError) scans = Some (Inl OSError)"
    then have "load_device scans (device_search_term s) = Some (Inl OSError)"
      by (auto simp: update_state_from_loop_def read_loop_lost apply_event_None
               split: option.splits sum.splits)
    from load_device_error [OF this] show False by simp
  qed
next
  fix d
  assume "load_device scans (device_search_term s) = Some (Inr d)"
  then show "\<exists>s'. update_state_from_loop s (Inl OSError) scans = Some (Inr s') \<and>
            run s (Inl OSError) scans =
              Some (Inr ((angle s, throttle s, drive_mode s, recording s), s')) \<and>
            angle s' = angle s \<and> throttle s' = throttle s \<and>
            drive_mode s' = drive_mode s \<and> recording s' = recording s \<and>
            throttle_scale s' = throttle_scale s \<and> device s' = d"
    by (simp add: run_def update_state_from_loop_def read_loop_lost apply_event_None)
qed

lemma load_device_example:
  "load_device (\<lambda>k. if k < 2 then [] else [example_device]) (Str ''Nintendo'') =
     Some (Inr example_device)"
  by (simp add: load_device.simps find_input_device_def example_device_def lower_def
      char_lower_def)

theorem connection_lost_continuity_witness:
  "load_device (\<lambda>k. if k < 2 then [] else [example_device])
      (device_search_term example_controller) = Some (Inr example_device) \<and>
   update_state_from_loop example_controller (Inl OSError)
      (\<lambda>k. if k < 2 then [] else [example_device]) =
     Some (Inr (example_controller\<lparr>state := [None \<mapsto> VNone]\<rparr>)) \<and>
   run example_controller (Inl OSError) (\<lambda>k. if k < 2 then [] else [example_device]) =
     Some (Inr ((VFloat (Finite 0 (- 1074)), Finite 0 (- 1074), ''user'', True),
                example_controller\<lparr>state := [None \<mapsto> VNone]\<rparr>))"
  using connection_lost_continuity [of example_controller
      "\<lambda>k. if k < 2 then [] else [example_device]"]
  by (simp add: load_device_example run_def update_state_from_loop_def read_loop_lost
      apply_event_None example_controller_def)

section \<open>Finding the device\<close>

lemma starts_with_iff: "starts_with a b \<longleftrightarrow> (\<exists>after. b = a @ after)"
  by (induction a b rule: starts_with.induct) auto

lemma contains_iff: "contains a b \<longleftrightarrow> (\<exists>before after. b = before @ a @ after)"
proof (induction b)
  case Nil
  then show ?case by auto
next
  case (Cons y b)
  show ?case
  proof
    assume "contains a (y # b)"
    then consider "starts_with a (y # b)" | "contains a b" by auto
    then show "\<exists>before after. y # b = before @ a @ after"
    proof cases
      case 1
      then obtain after where "y # b = a @ after" by (auto simp: starts_with_iff)
      then have "y # b = [] @ a @ after" by simp
      then show ?thesis by blast
    next
      case 2
      with Cons obtain before after where "b = before @ a @ after" by auto
      then have "y # b = (y # before) @ a @ after" by simp
      then show ?thesis by blast
    qed
  next
    assume "\<exists>before after. y # b = before @ a @ after"
    then obtain before after where eq: "y # b = before @ a @ after" by auto
    show "contains a (y # b)"
    proof (cases before)
      case Nil
      with eq have "starts_with a (y # b)" by (auto simp: starts_with_iff)
      then show ?thesis by simp
    next
      case (Cons z before')
      with eq have "b = before' @ a @ after" by simp
      with Cons.IH have "contains a b" by blast
      then show ?thesis by simp
    qed
  qed
qed

lemma matches_term_code: "matches_term t d \<longleftrightarrow> contains (lower t) (lower (name d))"
  by (simp add: matches_term_def contains_iff)

lemma likely_devices_Str:
  "likely_devices (Str t) ds acc = Inr (acc @ filter (matches_term t) ds)"
  by (induction ds arbitrary: acc) (simp_all add: matches_term_code)

lemma find_input_device_Str:
  "find_input_device ds (Str t) =
     (if length (filter (matches_term t) ds) = 1 then Inr (Some (filter (matches_term t) ds ! 0))
      else if 2 \<le> length (filter (matches_term t) ds) then Inl ValueError
      else Inr None)"
  by (simp add: find_input_device_def likely_devices_Str)

text \<open>
  C8. For every list of devices and every search term (a string), \<open>find_input_device\<close>
  returns \<open>None\<close> (not found) when no device matches, returns the device when
  exactly one matches, and raises \<open>ValueError\<close> (the ambiguity error) when two or
  more match: it never picks one of several.
\<close>

theorem find_input_device_cases:
  "(filter (matches_term t) all_devices = [] \<longrightarrow>
      find_input_device all_devices (Str t) = Inr None) \<and>
   (\<forall>d. filter (matches_term t) all_devices = [d] \<longrightarrow>
      find_input_device all_devices (Str t) = Inr (Some d)) \<and>
   (2 \<le> length (filter (matches_term t) all_devices) \<longrightarrow>
      find_input_device all_devices (Str t) = Inl ValueError)"
  by (simp add: find_input_device_Str)

lemmas string_eval = lower_def char_lower_def char_of_def bit_Suc_0_iff

lemma matches_examples:
  "matches_term ''nintendo'' example_device"
  "matches_term ''NINTENDO'' \<lparr>path = ''/dev/input/event5'', name = ''nintendo switch''\<rparr>"
  "\<not> matches_term ''nintendo'' \<lparr>path = ''/dev/input/event0'', name = ''Power Button''\<rparr>"
  by (simp_all add: matches_term_code example_device_def string_eval)

theorem find_input_device_cases_witness:
  "filter (matches_term ''nintendo'')
     [\<lparr>path = ''/dev/input/event0'', name = ''Power Button''\<rparr>] = [] \<and>
   find_input_device [\<lparr>path = ''/dev/input/event0'', name = ''Power Button''\<rparr>]
     (Str ''nintendo'') = Inr None \<and>
   filter (matches_term ''nintendo'')
     [\<lparr>path = ''/dev/input/event0'', name = ''Power Button''\<rparr>, example_device] =
     [example_device] \<and>
   find_input_device [\<lparr>path = ''/dev/input/event0'', name = ''Power Button''\<rparr>, example_device]
     (Str ''nintendo'') = Inr (Some example_device) \<and>
   2 \<le> length (filter (matches_term ''NINTENDO'')
     [example_device, \<lparr>path = ''/dev/input/event5'', name = ''nintendo switch''\<rparr>]) \<and>
   find_input_device [example_device, \<lparr>path = ''/dev/input/event5'', name = ''nintendo switch''\<rparr>]
     (Str ''NINTENDO'') = Inl ValueError"
  using find_input_device_cases [of "''nintendo''"
      "[\<lparr>path = ''/dev/input/event0'', name = ''Power Button''\<rparr>]"]
    find_input_device_cases [of "''nintendo''"
      "[\<lparr>path = ''/dev/input/event0'', name = ''Power Button''\<rparr>, example_device]"]
    find_input_device_cases [of "''NINTENDO''"
      "[example_device, \<lparr>path = ''/dev/input/event5'', name = ''nintendo switch''\<rparr>]"]
  by (simp add: matches_term_code example_device_def string_eval)

section \<open>What every state of a session satisfies\<close>

lemma func_map_get_cases:
  assumes "func_map_get btn = Some f"
  shows "f = update_angle \<or> f = update_throttle \<or> f = toggle_recording \<or>
         f = toggle_drive_mode \<or> f = increment_throttle_scale \<or> f = decrement_throttle_scale"
  using assms
  by (cases btn) (auto simp: func_map_get_def func_map_def split: if_splits)

lemma consistent_state_update:
  "consistent (s\<lparr>state := m\<rparr>) = consistent s"
  by (simp add: consistent_def drive_mode_at_def recording_at_def)

lemma consistent_device_update:
  "consistent (s\<lparr>device := d\<rparr>) = consistent s"
  by (simp add: consistent_def drive_mode_at_def recording_at_def)

lemma toggle_drive_mode_at:
  assumes "drive_mode_at i s" and "eq_one val"
  shows "toggle_drive_mode val s =
           Inr (s\<lparr>drive_mode_toggle := Cycle drive_modes (Suc (Suc i mod 3) mod 3),
                   drive_mode := drive_modes ! (Suc i mod 3)\<rparr>)"
  using assms by (simp add: toggle_drive_mode_def drive_mode_at_def drive_modes_def)

lemma toggle_recording_at:
  assumes "recording_at j s" and "eq_one val"
  shows "toggle_recording val s =
           Inr (s\<lparr>recording_toggle := Cycle [True, False] (Suc (Suc j mod 2) mod 2),
                   recording := [True, False] ! (Suc j mod 2)\<rparr>)"
  using assms by (simp add: toggle_recording_def recording_at_def numeral_2_eq_2)

lemma handler_consistent:
  assumes "consistent s" and "f val s = Inr s'"
    and "f = update_angle \<or> f = update_throttle \<or> f = toggle_recording \<or>
         f = toggle_drive_mode \<or> f = increment_throttle_scale \<or> f = decrement_throttle_scale"
  shows "consistent s'"
proof -
  from assms(1) obtain i j where i: "drive_mode_at i s" and j: "recording_at j s"
    and y: "y_axis_direction s = - 1"
    and inc: "throttle_scale_increment s = Finite 7205759403792794 (- 57)"
    by (auto simp: consistent_def)
  from assms(3) consider "f = update_angle" | "f = update_throttle" | "f = toggle_recording"
    | "f = toggle_drive_mode" | "f = increment_throttle_scale" | "f = decrement_throttle_scale"
    by blast
  then show ?thesis
  proof cases
    case 1
    with assms(1,2) show ?thesis
      by (auto simp: update_angle_def consistent_def drive_mode_at_def recording_at_def)
  next
    case 2
    with assms(1,2) show ?thesis
      by (auto simp: update_throttle_def consistent_def drive_mode_at_def recording_at_def
               split: sum.splits)
  next
    case 3
    show ?thesis
    proof (cases "eq_one val")
      case True
      have "recording_at (Suc j mod 2) s'"
        using toggle_recording_at [OF j True] assms(2) 3 j
        by (auto simp: recording_at_def)
      moreover have "drive_mode_at i s'"
        using toggle_recording_at [OF j True] assms(2) 3 i
        by (auto simp: drive_mode_at_def)
      moreover have "y_axis_direction s' = - 1"
        "throttle_scale_increment s' = Finite 7205759403792794 (- 57)"
        using toggle_recording_at [OF j True] assms(2) 3 y inc by auto
      ultimately show ?thesis by (auto simp: consistent_def)
    next
      case False
      with assms(1,2) 3 show ?thesis by (simp add: toggle_recording_def)
    qed
  next
    case 4
    show ?thesis
    proof (cases "eq_one val")
      case True
      have "drive_mode_at (Suc i mod 3) s'"
        using toggle_drive_mode_at [OF i True] assms(2) 4 i
        by (auto simp: drive_mode_at_def)
      moreover have "recording_at j s'"
        using toggle_drive_mode_at [OF i True] assms(2) 4 j
        by (auto simp: recording_at_def)
      moreover have "y_axis_direction s' = - 1"
        "throttle_scale_increment s' = Finite 7205759403792794 (- 57)"
        using toggle_drive_mode_at [OF i True] assms(2) 4 y inc by auto
      ultimately show ?thesis by (auto simp: consistent_def)
    next
      case False
      with assms(1,2) 4 show ?thesis by (simp add: toggle_drive_mode_def)
    qed
  next
    case 5
    with assms(1,2) show ?thesis
      by (auto simp: increment_throttle_scale_def consistent_def drive_mode_at_def
               recording_at_def split: if_splits)
  next
    case 6
    with assms(1,2) show ?thesis
      by (auto simp: decrement_throttle_scale_def consistent_def drive_mode_at_def
               recording_at_def split: if_splits)
  qed
qed

lemma apply_event_consistent:
  assumes "consistent s" and "apply_event btn val s = Inr s'"
  shows "consistent s'"
proof (cases "func_map_get btn")
  case None
  with assms show ?thesis by (auto simp: apply_event_def consistent_state_update)
next
  case (Some f)
  with assms(2) have run: "f val (s\<lparr>state := (state s)(btn \<mapsto> val)\<rparr>) = Inr s'"
    by (simp add: apply_event_def)
  have "consistent (s\<lparr>state := (state s)(btn \<mapsto> val)\<rparr>)"
    using assms(1) by (simp add: consistent_state_update)
  from this run func_map_get_cases [OF Some] show ?thesis
    by (rule handler_consistent)
qed

lemma update_consistent:
  assumes "consistent s" and "update_state_from_loop s rd scans = Some (Inr s')"
  shows "consistent s'"
proof -
  from assms(2) obtain btn val s1 where r: "read_loop s rd scans = Some (Inr ((btn, val), s1))"
    and a: "apply_event btn val s1 = Inr s'"
    by (auto simp: update_state_from_loop_def split: option.splits sum.splits)
  from r have "s1 = s \<or> (\<exists>d. s1 = s\<lparr>device := d\<rparr>)"
    by (auto simp: read_loop_def split: sum.splits if_splits option.splits)
  with assms(1) have "consistent s1" by (auto simp: consistent_device_update)
  from this a show ?thesis by (rule apply_event_consistent)
qed

lemma init_consistent:
  assumes "init event_input_device cfg search_arg verbose_arg scans = Some (Inr s)"
  shows "drive_mode_at 0 s" and "recording_at 0 s" and "consistent s"
proof -
  show "drive_mode_at 0 s"
    by (simp add: drive_mode_at_def drive_modes_def init_fields [OF assms])
  moreover show "recording_at 0 s"
    by (simp add: recording_at_def init_fields [OF assms])
  ultimately show "consistent s"
    by (auto simp: consistent_def init_fields [OF assms])
qed

lemma reachable_consistent: "reachable s \<Longrightarrow> consistent s"
proof (induction rule: reachable.induct)
  case (reachable_init event_input_device cfg search_arg verbose_arg scans s)
  then show ?case by (rule init_consistent(3))
next
  case (reachable_update s rd scans s')
  then show ?case by (auto intro: update_consistent)
next
  case (reachable_event s btn val s')
  then show ?case by (auto intro: apply_event_consistent)
qed

section \<open>The toggles\<close>

lemma apply_event_A:
  "apply_event (Some ''A'') val s =
     toggle_drive_mode val (s\<lparr>state := (state s)(Some ''A'' \<mapsto> val)\<rparr>)"
  by (simp add: apply_event_def func_map_get_simps)

lemma apply_event_B:
  "apply_event (Some ''B'') val s =
     toggle_recording val (s\<lparr>state := (state s)(Some ''B'' \<mapsto> val)\<rparr>)"
  by (simp add: apply_event_def func_map_get_simps)

lemma press_A:
  assumes "drive_mode_at i s" and "eq_one val"
  shows "\<exists>s'. apply_event (Some ''A'') val s = Inr s' \<and> drive_mode_at (Suc i mod 3) s'"
proof -
  from assms(1) have "drive_mode_at i (s\<lparr>state := (state s)(Some ''A'' \<mapsto> val)\<rparr>)"
    by (simp add: drive_mode_at_def)
  from toggle_drive_mode_at [OF this assms(2)] show ?thesis
    by (simp add: apply_event_A drive_mode_at_def)
qed

lemma presses_A:
  assumes "drive_mode_at i s" and "\<forall>v \<in> set vals. eq_one v"
  shows "\<exists>s'. apply_events (map (Pair (Some ''A'')) vals) s = Inr s' \<and>
              drive_mode_at ((i + length vals) mod 3) s'"
  using assms
proof (induction vals arbitrary: i s)
  case Nil
  then show ?case by (simp add: drive_mode_at_def)
next
  case (Cons v vals)
  from Cons.prems have v: "eq_one v" and rest: "\<forall>v \<in> set vals. eq_one v" by auto
  from press_A [OF Cons.prems(1) v] obtain s1
    where s1: "apply_event (Some ''A'') v s = Inr s1" and at: "drive_mode_at (Suc i mod 3) s1"
    by blast
  from Cons.IH [OF at rest] obtain s'
    where run: "apply_events (map (Pair (Some ''A'')) vals) s1 = Inr s'"
      and at': "drive_mode_at ((Suc i mod 3 + length vals) mod 3) s'"
    by blast
  have "(Suc i mod 3 + length vals) mod 3 = (i + length (v # vals)) mod 3"
    by (simp add: mod_add_left_eq mod_Suc_eq)
  with at' have "drive_mode_at ((i + length (v # vals)) mod 3) s'" by simp
  with s1 run show ?case by simp
qed

lemma apply_events_reachable:
  "reachable s \<Longrightarrow> apply_events evs s = Inr s' \<Longrightarrow> reachable s'"
proof (induction evs arbitrary: s)
  case Nil
  then show ?case by simp
next
  case (Cons ev evs)
  then show ?case
    by (cases ev) (auto split: sum.splits intro: reachable_event)
qed

text \<open>
  C4. In every state of a session, delivering the drive-mode button \<open>A\<close> with a value
  equal to 1 exactly N times (the length of \<open>vals\<close>) succeeds and moves the drive mode
  N steps along the cycle user, local_angle, local, user: from position \<open>i\<close> to position
  \<open>(i + N) mod 3\<close>, one step for each event, repeated ones included.
\<close>

theorem drive_mode_cycle:
  assumes "reachable s" and "\<forall>v \<in> set vals. eq_one v"
  shows "\<exists>i s'. i < 3 \<and> drive_mode s = [''user'', ''local_angle'', ''local''] ! i \<and>
           apply_events (map (Pair (Some ''A'')) vals) s = Inr s' \<and> reachable s' \<and>
           drive_mode s' = [''user'', ''local_angle'', ''local''] ! ((i + length vals) mod 3)"
proof -
  from reachable_consistent [OF assms(1)] obtain i where i: "drive_mode_at i s"
    by (auto simp: consistent_def)
  from presses_A [OF i assms(2)] obtain s'
    where run: "apply_events (map (Pair (Some ''A'')) vals) s = Inr s'"
      and at: "drive_mode_at ((i + length vals) mod 3) s'"
    by blast
  have "reachable s'"
    using assms(1) run by (rule apply_events_reachable)
  with i run at show ?thesis
    by (auto simp: drive_mode_at_def drive_modes_def)
qed


theorem drive_mode_cycle_witness:
  "reachable example_controller \<and>
   eq_one (VInt 1) \<and> eq_one (VFloat (Finite (2 ^ 52) (- 52))) \<and>
   drive_mode example_controller = ''user'' \<and>
   (case apply_events
           (map (Pair (Some ''A'')) [VInt 1, VFloat (Finite (2 ^ 52) (- 52)), VInt 1, VInt 1])
           example_controller of
      Inl e \<Rightarrow> False
    | Inr s' \<Rightarrow> drive_mode s' = ''local_angle'')"
proof -
  have r: "reachable example_controller"
    by (rule reachable_init [OF init_example [of "\<lambda>k. []"]])
  have v: "\<forall>v \<in> set [VInt 1, VFloat (Finite (2 ^ 52) (- 52)), VInt 1, VInt 1]. eq_one v"
    by simp
  from drive_mode_cycle [OF r v] r show ?thesis
    by (simp add: apply_event_A toggle_drive_mode_def example_controller_def)
qed

lemma press_B:
  assumes "recording_at j s" and "eq_one val"
  shows "\<exists>s'. apply_event (Some ''B'') val s = Inr s' \<and> recording_at (Suc j mod 2) s'"
proof -
  from assms(1) have "recording_at j (s\<lparr>state := (state s)(Some ''B'' \<mapsto> val)\<rparr>)"
    by (simp add: recording_at_def)
  from toggle_recording_at [OF this assms(2)] show ?thesis
    by (simp add: apply_event_B recording_at_def)
qed

lemma presses_B:
  assumes "recording_at j s" and "\<forall>v \<in> set vals. eq_one v"
  shows "\<exists>s'. apply_events (map (Pair (Some ''B'')) vals) s = Inr s' \<and>
              recording_at ((j + length vals) mod 2) s'"
  using assms
proof (induction vals arbitrary: j s)
  case Nil
  then show ?case by (simp add: recording_at_def)
next
  case (Cons v vals)
  from Cons.prems have v: "eq_one v" and rest: "\<forall>v \<in> set vals. eq_one v" by auto
  from press_B [OF Cons.prems(1) v] obtain s1
    where s1: "apply_event (Some ''B'') v s = Inr s1" and at: "recording_at (Suc j mod 2) s1"
    by blast
  from Cons.IH [OF at rest] obtain s'
    where run: "apply_events (map (Pair (Some ''B'')) vals) s1 = Inr s'"
      and at': "recording_at ((Suc j mod 2 + length vals) mod 2) s'"
    by blast
  have "(Suc j mod 2 + length vals) mod 2 = (j + length (v # vals)) mod 2"
    by (simp add: mod_add_left_eq mod_Suc_eq)
  with at' have "recording_at ((j + length (v # vals)) mod 2) s'" by simp
  with s1 run show ?case by simp
qed

text \<open>
  C5. In every state of a session, delivering the recording button \<open>B\<close> with a value equal
  to 1 exactly N times succeeds and flips the recording flag once for each event, along the
  cycle True, False; after an even N the flag is what it was.
\<close>

theorem recording_cycle:
  assumes "reachable s" and "\<forall>v \<in> set vals. eq_one v"
  shows "\<exists>j s'. j < 2 \<and> recording s = [True, False] ! j \<and>
           apply_events (map (Pair (Some ''B'')) vals) s = Inr s' \<and> reachable s' \<and>
           recording s' = [True, False] ! ((j + length vals) mod 2) \<and>
           (even (length vals) \<longrightarrow> recording s' = recording s)"
proof -
  from reachable_consistent [OF assms(1)] obtain j where j: "recording_at j s"
    by (auto simp: consistent_def)
  from presses_B [OF j assms(2)] obtain s'
    where run: "apply_events (map (Pair (Some ''B'')) vals) s = Inr s'"
      and at: "recording_at ((j + length vals) mod 2) s'"
    by blast
  have r: "reachable s'"
    using assms(1) run by (rule apply_events_reachable)
  have "even (length vals) \<Longrightarrow> (j + length vals) mod 2 = j"
    using j by (auto simp: recording_at_def mod_add_right_eq elim!: evenE)
  with j run at r show ?thesis
    by (auto simp: recording_at_def)
qed

theorem recording_cycle_witness:
  "reachable example_controller \<and>
   eq_one (VInt 1) \<and> recording example_controller = True \<and>
   (case apply_events (map (Pair (Some ''B'')) [VInt 1, VInt 1, VInt 1]) example_controller of
      Inl e \<Rightarrow> False
    | Inr s' \<Rightarrow> recording s' = False) \<and>
   even (length [VInt 1, VInt 1 :: pyval]) \<and>
   (case apply_events (map (Pair (Some ''B'')) [VInt 1, VInt 1]) example_controller of
      Inl e \<Rightarrow> False
    | Inr s' \<Rightarrow> recording s' = True)"
proof -
  have r: "reachable example_controller"
    by (rule reachable_init [OF init_example [of "\<lambda>k. []"]])
  have v: "\<forall>v \<in> set [VInt 1, VInt 1, VInt 1]. eq_one v"
    and w: "\<forall>v \<in> set [VInt 1, VInt 1]. eq_one v"
    by simp_all
  from recording_cycle [OF r v] recording_cycle [OF r w] r show ?thesis
    by (simp add: apply_event_B toggle_recording_def example_controller_def)
qed

section \<open>Events that are not presses\<close>

lemma apply_event_no_press:
  assumes "\<not> eq_one val" and "apply_event btn val s = Inr s'"
  shows "drive_mode s' = drive_mode s \<and> recording s' = recording s"
proof (cases "func_map_get btn")
  case None
  with assms(2) show ?thesis by (auto simp: apply_event_def)
next
  case (Some f)
  with assms(2) have run: "f val (s\<lparr>state := (state s)(btn \<mapsto> val)\<rparr>) = Inr s'"
    by (simp add: apply_event_def)
  from func_map_get_cases [OF Some] run assms(1) show ?thesis
    by (auto simp: update_angle_def update_throttle_def toggle_recording_def
          toggle_drive_mode_def increment_throttle_scale_def decrement_throttle_scale_def
        split: sum.splits)
qed

lemma apply_event_returns:
  assumes "consistent s" and "btn = Some ''LEFT_STICK_Y'' \<longrightarrow> \<not> isl (as_float val)"
  shows "\<exists>s'. apply_event btn val s = Inr s'"
proof (cases "func_map_get btn")
  case None
  then show ?thesis by (simp add: apply_event_def)
next
  case (Some f)
  let ?s = "s\<lparr>state := (state s)(btn \<mapsto> val)\<rparr>"
  from assms(1) obtain i j where i: "drive_mode_at i ?s" and j: "recording_at j ?s"
    and y: "y_axis_direction ?s = - 1"
    by (auto simp: consistent_def drive_mode_at_def recording_at_def)
  have "\<exists>s'. f val ?s = Inr s'"
  proof (cases "btn = Some ''LEFT_STICK_Y''")
    case True
    with Some have f: "f = update_throttle" by (simp add: func_map_get_simps)
    from True assms(2) obtain x where "as_float val = Inr x"
      by (cases "as_float val") auto
    with f y show ?thesis
      by (simp add: update_throttle_def float_of_int_minus_one)
  next
    case False
    with Some have "f = update_angle \<or> f = toggle_recording \<or> f = toggle_drive_mode \<or>
        f = increment_throttle_scale \<or> f = decrement_throttle_scale"
      by (cases btn) (auto simp: func_map_get_def func_map_def split: if_splits)
    then show ?thesis
      using toggle_drive_mode_at [OF i] toggle_recording_at [OF j]
      by (cases "eq_one val")
        (auto simp: update_angle_def toggle_recording_def toggle_drive_mode_def
          increment_throttle_scale_def decrement_throttle_scale_def)
  qed
  with Some show ?thesis by (simp add: apply_event_def)
qed

lemma apply_events_no_press:
  assumes "\<forall>(b, v) \<in> set evs. \<not> eq_one v" and "apply_events evs s = Inr s'"
  shows "drive_mode s' = drive_mode s \<and> recording s' = recording s"
  using assms
proof (induction evs arbitrary: s)
  case Nil
  then show ?case by simp
next
  case (Cons ev evs)
  obtain b v where ev: "ev = (b, v)" by (cases ev)
  with Cons.prems obtain s1 where s1: "apply_event b v s = Inr s1"
    and rest: "apply_events evs s1 = Inr s'"
    by (auto split: sum.splits)
  from Cons.prems(1) ev have v: "\<not> eq_one v" and all: "\<forall>(b, v) \<in> set evs. \<not> eq_one v"
    by auto
  from apply_event_no_press [OF v s1] Cons.IH [OF all rest] show ?case by simp
qed

lemma apply_events_return:
  assumes "consistent s"
    and "\<forall>(b, v) \<in> set evs. b = Some ''LEFT_STICK_Y'' \<longrightarrow> \<not> isl (as_float v)"
  shows "\<exists>s'. apply_events evs s = Inr s'"
  using assms
proof (induction evs arbitrary: s)
  case Nil
  then show ?case by simp
next
  case (Cons ev evs)
  obtain b v where ev: "ev = (b, v)" by (cases ev)
  with Cons.prems(2) have "b = Some ''LEFT_STICK_Y'' \<longrightarrow> \<not> isl (as_float v)" by auto
  from apply_event_returns [OF Cons.prems(1) this] obtain s1
    where s1: "apply_event b v s = Inr s1" by blast
  from apply_event_consistent [OF Cons.prems(1) s1] have c: "consistent s1" .
  from Cons.prems(2) have "\<forall>(b, v) \<in> set evs. b = Some ''LEFT_STICK_Y'' \<longrightarrow> \<not> isl (as_float v)"
    by auto
  from Cons.IH [OF c this] ev s1 show ?case by simp
qed

text \<open>
  C6. A sequence of translated events none of which has a value equal to 1 leaves the
  drive mode and the recording flag as they were: whenever the sequence is applied without
  raising, and it is applied without raising in every state of a session when the values
  of its throttle events are numbers in the range of a float.
\<close>

theorem no_press_no_toggle:
  assumes "\<forall>(b, v) \<in> set evs. \<not> eq_one v"
  shows "(\<forall>s'. apply_events evs s = Inr s' \<longrightarrow>
            drive_mode s' = drive_mode s \<and> recording s' = recording s) \<and>
         (reachable s \<and>
          (\<forall>(b, v) \<in> set evs. b = Some ''LEFT_STICK_Y'' \<longrightarrow> \<not> isl (as_float v)) \<longrightarrow>
            (\<exists>s'. apply_events evs s = Inr s'))"
  using apply_events_no_press [OF assms] apply_events_return reachable_consistent
  by blast

section \<open>Evaluating events\<close>

lemma apply_event_Y:
  "apply_event (Some ''LEFT_STICK_Y'') val s =
     update_throttle val (s\<lparr>state := (state s)(Some ''LEFT_STICK_Y'' \<mapsto> val)\<rparr>)"
  by (simp add: apply_event_def func_map_get_simps)

lemma apply_event_UP:
  "apply_event (Some ''PAD_UP'') val s =
     increment_throttle_scale val (s\<lparr>state := (state s)(Some ''PAD_UP'' \<mapsto> val)\<rparr>)"
  by (simp add: apply_event_def func_map_get_simps)

lemma apply_event_DOWN:
  "apply_event (Some ''PAD_DOWN'') val s =
     decrement_throttle_scale val (s\<lparr>state := (state s)(Some ''PAD_DOWN'' \<mapsto> val)\<rparr>)"
  by (simp add: apply_event_def func_map_get_simps)

lemma float_half: "round_ratio 1 2 = Finite (2 ^ 52) (- 53)"
  by (simp add: float_eval)

lemma float_minus_half: "round_ratio (- 1) 2 = Finite (- (2 ^ 52)) (- 53)"
  by (simp add: float_eval)

lemma half_times_one: "fmul (fmul (Finite (2 ^ 52) (- 53)) (Finite (2 ^ 52) (- 52)))
    (Finite (- (2 ^ 52)) (- 52)) = Finite (- (2 ^ 52)) (- 53)"
  by (simp add: float_eval)

theorem no_press_no_toggle_witness:
  "eq_one (VInt 0) = False \<and> eq_one (VInt 2) = False \<and>
   eq_one (VFloat (Finite (2 ^ 52) (- 53))) = False \<and> eq_one VNone = False \<and>
   reachable example_controller \<and>
   isl (as_float (VFloat (Finite (2 ^ 52) (- 53)))) = False \<and>
   (case apply_events [(Some ''A'', VInt 0), (Some ''B'', VInt 2),
        (Some ''LEFT_STICK_Y'', VFloat (Finite (2 ^ 52) (- 53))),
        (None, VNone), (Some ''A'', VNone)] example_controller of
      Inl e \<Rightarrow> False
    | Inr s' \<Rightarrow> drive_mode s' = ''user'' \<and> recording s' = True)"
proof -
  let ?evs = "[(Some ''A'', VInt 0), (Some ''B'', VInt 2),
        (Some ''LEFT_STICK_Y'', VFloat (Finite (2 ^ 52) (- 53))),
        (None, VNone), (Some ''A'', VNone)]"
  have r: "reachable example_controller"
    by (rule reachable_init [OF init_example [of "\<lambda>k. []"]])
  have v: "\<forall>(b, v) \<in> set ?evs. \<not> eq_one v" by simp
  have n: "\<forall>(b, v) \<in> set ?evs. b = Some ''LEFT_STICK_Y'' \<longrightarrow> \<not> isl (as_float v)" by simp
  from no_press_no_toggle [OF v, of example_controller] r n v show ?thesis
    by (auto simp: example_controller_def split: sum.splits)
qed


section \<open>Throttle\<close>

text \<open>
  C3. In every state of a session, an event of the Y axis whose value is the number \<open>x\<close>
  sets the throttle to the float product \<open>x * throttle_scale * -1\<close>, evaluated from the
  left as Python does. The last factor only negates: the throttle is the negated float
  product of \<open>x\<close> and the throttle scale. With \<open>x\<close> = 0.5 and throttle scale 1.0 the
  throttle is -0.5.
\<close>

theorem throttle_sign:
  assumes "reachable s" and "as_float val = Inr x"
  shows "\<exists>s' minus_one. float_of_int (- 1) = Inr minus_one \<and>
           apply_event (Some ''LEFT_STICK_Y'') val s = Inr s' \<and>
           throttle s' = fmul (fmul x (throttle_scale s)) minus_one \<and>
           throttle s' = fneg (fmul x (throttle_scale s)) \<and>
           (x = round_ratio 1 2 \<and> throttle_scale s = round_ratio 1 1
              \<longrightarrow> throttle s' = round_ratio (- 1) 2 \<and> fval (throttle s') = Some (- 1 / 2))"
proof -
  from reachable_consistent [OF assms(1)] have y: "y_axis_direction s = - 1"
    by (simp add: consistent_def)
  define T where "T = fmul (fmul x (throttle_scale s)) (Finite (- (2 ^ 52)) (- 52))"
  define s' where "s' = s\<lparr>state := (state s)(Some ''LEFT_STICK_Y'' \<mapsto> val), throttle := T\<rparr>"
  have m1: "float_of_int (- 1) = Inr (Finite (- (2 ^ 52)) (- 52))"
    by (rule float_of_int_minus_one)
  have run: "apply_event (Some ''LEFT_STICK_Y'') val s = Inr s'"
    using assms(2) y
    by (simp add: apply_event_Y update_throttle_def float_of_int_minus_one s'_def T_def)
  have t: "throttle s' = T" by (simp add: s'_def)
  have prod: "throttle s' = fmul (fmul x (throttle_scale s)) (Finite (- (2 ^ 52)) (- 52))"
    by (simp only: t T_def)
  have "T = fneg (fmul x (throttle_scale s))"
    unfolding T_def by (rule fmul_fmul_minus_one)
  then have neg: "throttle s' = fneg (fmul x (throttle_scale s))" by (simp only: t)
  have ex: "x = round_ratio 1 2 \<and> throttle_scale s = round_ratio 1 1
          \<longrightarrow> throttle s' = round_ratio (- 1) 2 \<and> fval (throttle s') = Some (- 1 / 2)"
  proof
    assume "x = round_ratio 1 2 \<and> throttle_scale s = round_ratio 1 1"
    then have "T = Finite (- (2 ^ 52)) (- 53)"
      unfolding T_def by (simp only: float_half float_one half_times_one)
    then show "throttle s' = round_ratio (- 1) 2 \<and> fval (throttle s') = Some (- 1 / 2)"
      by (simp add: t float_minus_half)
  qed
  show ?thesis
    by (rule exI [of _ s'], rule exI [of _ "Finite (- (2 ^ 52)) (- 52)"])
      (intro conjI m1 run prod neg ex)
qed

theorem throttle_sign_witness:
  "reachable example_controller \<and>
   as_float (VFloat (Finite (2 ^ 52) (- 53))) = Inr (Finite (2 ^ 52) (- 53)) \<and>
   Finite (2 ^ 52) (- 53) = round_ratio 1 2 \<and>
   throttle_scale example_controller = round_ratio 1 1 \<and>
   (case apply_event (Some ''LEFT_STICK_Y'') (VFloat (Finite (2 ^ 52) (- 53)))
           example_controller of
      Inl e \<Rightarrow> False
    | Inr s' \<Rightarrow> fval (throttle s') = Some (- 1 / 2))"
proof -
  have r: "reachable example_controller"
    by (rule reachable_init [OF init_example [of "\<lambda>k. []"]])
  have a: "as_float (VFloat (Finite (2 ^ 52) (- 53))) = Inr (Finite (2 ^ 52) (- 53))"
    by simp
  from throttle_sign [OF r a] r show ?thesis
    by (auto simp: example_controller_def float_half float_one)
qed


section \<open>Throttle scale\<close>

lemma press_UP:
  assumes "consistent s" and "eq_one val"
  shows "\<exists>s'. apply_event (Some ''PAD_UP'') val s = Inr s' \<and> consistent s' \<and>
           throttle_scale s' = fadd (throttle_scale s) (round_ratio 5 100)"
proof -
  from assms(1) have "throttle_scale_increment s = round_ratio 5 100"
    by (simp add: consistent_def float_increment)
  with assms(2) obtain s' where run: "apply_event (Some ''PAD_UP'') val s = Inr s'"
    and ts: "throttle_scale s' = fadd (throttle_scale s) (round_ratio 5 100)"
    by (simp add: apply_event_UP increment_throttle_scale_def)
  from apply_event_consistent [OF assms(1) run] run ts show ?thesis by blast
qed

lemma press_DOWN:
  assumes "consistent s" and "eq_one val"
  shows "\<exists>s'. apply_event (Some ''PAD_DOWN'') val s = Inr s' \<and> consistent s' \<and>
           throttle_scale s' = fsub (throttle_scale s) (round_ratio 5 100)"
proof -
  from assms(1) have "throttle_scale_increment s = round_ratio 5 100"
    by (simp add: consistent_def float_increment)
  with assms(2) obtain s' where run: "apply_event (Some ''PAD_DOWN'') val s = Inr s'"
    and ts: "throttle_scale s' = fsub (throttle_scale s) (round_ratio 5 100)"
    by (simp add: apply_event_DOWN decrement_throttle_scale_def)
  from apply_event_consistent [OF assms(1) run] run ts show ?thesis by blast
qed

lemma funpow_Suc_first: "(F ^^ Suc n) x = (F ^^ n) (F x)"
  by (simp add: funpow_swap1)

lemma presses_UP:
  assumes "consistent s" and "eq_one val"
  shows "\<exists>s'. apply_events (replicate n (Some ''PAD_UP'', val)) s = Inr s' \<and>
           throttle_scale s' = ((\<lambda>x. fadd x (round_ratio 5 100)) ^^ n) (throttle_scale s)"
  using assms(1)
proof (induction n arbitrary: s)
  case 0
  then show ?case by simp
next
  case (Suc n)
  from press_UP [OF Suc.prems assms(2)] obtain s1
    where s1: "apply_event (Some ''PAD_UP'') val s = Inr s1" and c: "consistent s1"
      and ts: "throttle_scale s1 = fadd (throttle_scale s) (round_ratio 5 100)"
    by blast
  from Suc.IH [OF c] s1 ts
    funpow_Suc_first [where F = "\<lambda>x. fadd x (round_ratio 5 100)" and n = n
      and x = "throttle_scale s"]
  show ?case
    by (simp del: funpow.simps)
qed

lemma presses_DOWN:
  assumes "consistent s" and "eq_one val"
  shows "\<exists>s'. apply_events (replicate n (Some ''PAD_DOWN'', val)) s = Inr s' \<and>
           throttle_scale s' = ((\<lambda>x. fsub x (round_ratio 5 100)) ^^ n) (throttle_scale s)"
  using assms(1)
proof (induction n arbitrary: s)
  case 0
  then show ?case by simp
next
  case (Suc n)
  from press_DOWN [OF Suc.prems assms(2)] obtain s1
    where s1: "apply_event (Some ''PAD_DOWN'') val s = Inr s1" and c: "consistent s1"
      and ts: "throttle_scale s1 = fsub (throttle_scale s) (round_ratio 5 100)"
    by blast
  from Suc.IH [OF c] s1 ts
    funpow_Suc_first [where F = "\<lambda>x. fsub x (round_ratio 5 100)" and n = n
      and x = "throttle_scale s"]
  show ?case
    by (simp del: funpow.simps)
qed

lemma four_increments:
  "((\<lambda>x. fadd x (round_ratio 5 100)) ^^ 4) (round_ratio 1 1) = Finite 5404319552844596 (- 52)"
  by (simp add: eval_nat_numeral float_one float_increment float_eval)

lemma twenty_one_decrements:
  "((\<lambda>x. fsub x (round_ratio 5 100)) ^^ 21) (round_ratio 1 1) = Finite (- 7205759403792840) (- 57)"
  by (simp add: eval_nat_numeral float_one float_increment fsub_def float_eval)

lemma four_increments_value:
  "fval (Finite 5404319552844596 (- 52)) = Some (5404319552844596 / 2 ^ 52) \<and>
   \<bar>5404319552844596 / 2 ^ 52 - 12 / 10\<bar> \<le> (1 / 2 ^ 52 :: rat)"
  by simp

lemma twenty_one_decrements_value:
  "fval (Finite (- 7205759403792840) (- 57)) = Some (- 7205759403792840 / 2 ^ 57) \<and>
   (- 7205759403792840 / 2 ^ 57 :: rat) < 0"
  by simp

text \<open>
  C7. In every state of a session, an increment event (\<open>PAD_UP\<close>) with a value equal to 1
  replaces the throttle scale by the float sum of it and 0.05, and a decrement event
  (\<open>PAD_DOWN\<close>) by the float difference; nothing bounds it below. From the throttle scale
  1.0, four increments give a float within \<open>2 ^ - 52\<close> of 1.2, and twenty-one decrements
  give a negative float.
\<close>

theorem throttle_scale_steps:
  assumes "reachable s" and "eq_one val"
  shows "\<exists>up down.
           apply_event (Some ''PAD_UP'') val s = Inr up \<and>
           throttle_scale up = fadd (throttle_scale s) (round_ratio 5 100) \<and>
           apply_event (Some ''PAD_DOWN'') val s = Inr down \<and>
           throttle_scale down = fsub (throttle_scale s) (round_ratio 5 100) \<and>
           (throttle_scale s = round_ratio 1 1 \<longrightarrow>
              (\<exists>s4 v4. apply_events (replicate 4 (Some ''PAD_UP'', val)) s = Inr s4 \<and>
                 fval (throttle_scale s4) = Some v4 \<and> \<bar>v4 - 12 / 10\<bar> \<le> 1 / 2 ^ 52) \<and>
              (\<exists>s21 v21. apply_events (replicate 21 (Some ''PAD_DOWN'', val)) s = Inr s21 \<and>
                 fval (throttle_scale s21) = Some v21 \<and> v21 < 0))"
proof -
  from reachable_consistent [OF assms(1)] have c: "consistent s" .
  from press_UP [OF c assms(2)] obtain up
    where up: "apply_event (Some ''PAD_UP'') val s = Inr up"
      "throttle_scale up = fadd (throttle_scale s) (round_ratio 5 100)"
    by blast
  from press_DOWN [OF c assms(2)] obtain down
    where down: "apply_event (Some ''PAD_DOWN'') val s = Inr down"
      "throttle_scale down = fsub (throttle_scale s) (round_ratio 5 100)"
    by blast
  have four: "\<exists>s4 v4. apply_events (replicate 4 (Some ''PAD_UP'', val)) s = Inr s4 \<and>
                 fval (throttle_scale s4) = Some v4 \<and> \<bar>v4 - 12 / 10\<bar> \<le> 1 / 2 ^ 52"
    if one: "throttle_scale s = round_ratio 1 1"
  proof -
    from presses_UP [OF c assms(2), of 4] obtain s4
      where run: "apply_events (replicate 4 (Some ''PAD_UP'', val)) s = Inr s4"
        and ts: "throttle_scale s4 =
                   ((\<lambda>x. fadd x (round_ratio 5 100)) ^^ 4) (throttle_scale s)"
      by blast
    from ts one have "throttle_scale s4 = Finite 5404319552844596 (- 52)"
      by (simp only: four_increments)
    with four_increments_value
    have "fval (throttle_scale s4) = Some (5404319552844596 / 2 ^ 52)"
      by (simp only:)
    with run four_increments_value show ?thesis by blast
  qed
  have many: "\<exists>s21 v21. apply_events (replicate 21 (Some ''PAD_DOWN'', val)) s = Inr s21 \<and>
                 fval (throttle_scale s21) = Some v21 \<and> v21 < 0"
    if one: "throttle_scale s = round_ratio 1 1"
  proof -
    from presses_DOWN [OF c assms(2), of 21] obtain s21
      where run: "apply_events (replicate 21 (Some ''PAD_DOWN'', val)) s = Inr s21"
        and ts: "throttle_scale s21 =
                   ((\<lambda>x. fsub x (round_ratio 5 100)) ^^ 21) (throttle_scale s)"
      by blast
    from ts one have "throttle_scale s21 = Finite (- 7205759403792840) (- 57)"
      by (simp only: twenty_one_decrements)
    with twenty_one_decrements_value
    have "fval (throttle_scale s21) = Some (- 7205759403792840 / 2 ^ 57)"
      by (simp only:)
    with run twenty_one_decrements_value show ?thesis by blast
  qed
  from up down four many show ?thesis by blast
qed

theorem throttle_scale_steps_witness:
  "reachable example_controller \<and> eq_one (VInt 1) \<and>
   throttle_scale example_controller = round_ratio 1 1 \<and>
   (case apply_event (Some ''PAD_UP'') (VInt 1) example_controller of
      Inl e \<Rightarrow> False
    | Inr up \<Rightarrow> throttle_scale up = Finite 4728779608739021 (- 52)) \<and>
   (case apply_event (Some ''PAD_DOWN'') (VInt 1) example_controller of
      Inl e \<Rightarrow> False
    | Inr down \<Rightarrow> throttle_scale down = Finite 8556839292003942 (- 53)) \<and>
   (case apply_events (replicate 4 (Some ''PAD_UP'', VInt 1)) example_controller of
      Inl e \<Rightarrow> False
    | Inr s4 \<Rightarrow> throttle_scale s4 = Finite 5404319552844596 (- 52))"
proof -
  have r: "reachable example_controller"
    by (rule reachable_init [OF init_example [of "\<lambda>k. []"]])
  have v: "eq_one (VInt 1)" by simp
  have one: "throttle_scale example_controller = round_ratio 1 1"
    by (simp add: example_controller_def float_one)
  have up: "fadd (Finite (2 ^ 52) (- 52)) (Finite 7205759403792794 (- 57)) =
              Finite 4728779608739021 (- 52)"
    by (simp add: float_eval)
  have down: "fsub (Finite (2 ^ 52) (- 52)) (Finite 7205759403792794 (- 57)) =
              Finite 8556839292003942 (- 53)"
    by (simp add: fsub_def float_eval)
  from throttle_scale_steps [OF r v] r one up down four_increments show ?thesis
    by (auto simp: float_one float_increment example_controller_def eval_nat_numeral
          apply_event_UP apply_event_DOWN increment_throttle_scale_def
          decrement_throttle_scale_def)
qed

section \<open>Scaling an axis\<close>

lemma scale_axis_example: "scale_axis 640 1280 = Inr (round_ratio 1 2)"
  by (simp add: scale_axis_def float_of_int_def float_half float_eval)

text \<open>
  C2, as the code has it. For an axis event with value \<open>v\<close> and a maximum \<open>m\<close> other
  than zero, both below \<open>2 ^ 53\<close> in absolute value, the translated value is the float
  nearest to \<open>v / m\<close>: a float in normal form, within half a unit of its last place of
  \<open>v / m\<close>, and \<open>v / m\<close> itself whenever that is a float; 640 and 1280 give 0.5. For an
  event of another type the value is passed through, whatever the maximum is.
\<close>

theorem axis_scaling:
  "(joystick_max_value s \<noteq> 0 \<and> \<bar>joystick_max_value s\<bar> < 2 ^ 53 \<and> \<bar>ev_value event\<bar> < 2 ^ 53 \<and>
    ev_type event = EV_ABS \<longrightarrow>
      (\<exists>m e. read_loop s (Inr event) scans =
                Some (Inr ((btn_map s (ev_code event), VFloat (Finite m e)), s)) \<and>
         normal_form m e \<and>
         \<bar>of_int m * 2 powi e - (of_int (ev_value event) :: rat) / of_int (joystick_max_value s)\<bar>
           \<le> 2 powi e / 2 \<and>
         (\<forall>m' e'. normal_form m' e' \<and>
            (of_int (ev_value event) :: rat) / of_int (joystick_max_value s) = of_int m' * 2 powi e'
            \<longrightarrow> m = m' \<and> e = e') \<and>
         (ev_value event = 640 \<and> joystick_max_value s = 1280 \<longrightarrow>
            Finite m e = round_ratio 1 2 \<and> fval (Finite m e) = Some (1 / 2)))) \<and>
   (ev_type event \<noteq> EV_ABS \<longrightarrow>
      read_loop s (Inr event) scans =
        Some (Inr ((btn_map s (ev_code event), VInt (ev_value event)), s)))"
proof (intro conjI impI)
  assume a: "joystick_max_value s \<noteq> 0 \<and> \<bar>joystick_max_value s\<bar> < 2 ^ 53 \<and>
    \<bar>ev_value event\<bar> < 2 ^ 53 \<and> ev_type event = EV_ABS"
  then have "joystick_max_value s \<noteq> 0" "\<bar>joystick_max_value s\<bar> < 2 ^ 53"
    "\<bar>ev_value event\<bar> < 2 ^ 53" and t: "ev_type event = EV_ABS"
    by simp_all
  from scale_axis_nearest [OF this(1-3)] obtain m e
    where sc: "scale_axis (ev_value event) (joystick_max_value s) = Inr (Finite m e)"
      and nf: "normal_form m e"
      and err: "\<bar>of_int m * 2 powi e -
          (of_int (ev_value event) :: rat) / of_int (joystick_max_value s)\<bar> \<le> 2 powi e / 2"
      and uniq: "\<forall>m' e'. normal_form m' e' \<and>
          (of_int (ev_value event) :: rat) / of_int (joystick_max_value s) = of_int m' * 2 powi e'
          \<longrightarrow> m = m' \<and> e = e'"
    by blast
  from sc t have r: "read_loop s (Inr event) scans =
      Some (Inr ((btn_map s (ev_code event), VFloat (Finite m e)), s))"
    by (simp add: read_loop_def)
  have ex: "ev_value event = 640 \<and> joystick_max_value s = 1280 \<longrightarrow>
      Finite m e = round_ratio 1 2 \<and> fval (Finite m e) = Some (1 / 2)"
    using sc by (auto simp: scale_axis_example float_half)
  show "\<exists>m e. read_loop s (Inr event) scans =
                Some (Inr ((btn_map s (ev_code event), VFloat (Finite m e)), s)) \<and>
         normal_form m e \<and>
         \<bar>of_int m * 2 powi e - (of_int (ev_value event) :: rat) / of_int (joystick_max_value s)\<bar>
           \<le> 2 powi e / 2 \<and>
         (\<forall>m' e'. normal_form m' e' \<and>
            (of_int (ev_value event) :: rat) / of_int (joystick_max_value s) = of_int m' * 2 powi e'
            \<longrightarrow> m = m' \<and> e = e') \<and>
         (ev_value event = 640 \<and> joystick_max_value s = 1280 \<longrightarrow>
            Finite m e = round_ratio 1 2 \<and> fval (Finite m e) = Some (1 / 2))"
    by (rule exI [of _ m], rule exI [of _ e]) (intro conjI r nf err uniq ex)
next
  assume "ev_type event \<noteq> EV_ABS"
  then show "read_loop s (Inr event) scans =
        Some (Inr ((btn_map s (ev_code event), VInt (ev_value event)), s))"
    by (simp add: read_loop_def)
qed

theorem axis_scaling_witness:
  "joystick_max_value example_controller \<noteq> 0 \<and>
   \<bar>joystick_max_value example_controller\<bar> < 2 ^ 53 \<and>
   \<bar>ev_value \<lparr>ev_type = 3, ev_code = 0, ev_value = 640\<rparr>\<bar> < 2 ^ 53 \<and>
   ev_type \<lparr>ev_type = 3, ev_code = 0, ev_value = 640\<rparr> = EV_ABS \<and>
   ev_value \<lparr>ev_type = 3, ev_code = 0, ev_value = 640\<rparr> = 640 \<and>
   joystick_max_value example_controller = 1280 \<and>
   read_loop example_controller (Inr \<lparr>ev_type = 3, ev_code = 0, ev_value = 640\<rparr>) (\<lambda>k. []) =
     Some (Inr ((Some ''LEFT_STICK_X'', VFloat (Finite (2 ^ 52) (- 53))), example_controller)) \<and>
   ev_type \<lparr>ev_type = 1, ev_code = 304, ev_value = 1\<rparr> \<noteq> EV_ABS \<and>
   read_loop example_controller (Inr \<lparr>ev_type = 1, ev_code = 304, ev_value = 1\<rparr>) (\<lambda>k. []) =
     Some (Inr ((Some ''A'', VInt 1), example_controller))"
  using axis_scaling [of example_controller "\<lparr>ev_type = 3, ev_code = 0, ev_value = 640\<rparr>"
      "\<lambda>k. []"]
    axis_scaling [of example_controller "\<lparr>ev_type = 1, ev_code = 304, ev_value = 1\<rparr>"
      "\<lambda>k. []"]
  by (simp add: read_loop_def EV_ABS_def scale_axis_example float_half
      example_controller_def example_config_def)

text \<open>
  C2 as stated fails: with the maximum 0 the translation of an axis event raises
  \<open>ZeroDivisionError\<close> and yields no value.
\<close>

theorem axis_scaling_counterexample:
  "read_loop (example_controller\<lparr>joystick_max_value := 0\<rparr>)
     (Inr \<lparr>ev_type = 3, ev_code = 0, ev_value = 640\<rparr>) (\<lambda>k. []) =
     Some (Inl ZeroDivisionError)"
  by (simp add: read_loop_def EV_ABS_def scale_axis_def float_of_int_def float_zero float_eval)

end
